theory Spec2Isabelle
  imports Main
begin

section \<open>The deferral scheduler (lib/next-time.ts)\<close>

text \<open>
  \<open>nextTime\<close> hands a callback to one of three host facilities and returns a closure
  that cancels it. The host is modelled as the list of callbacks that are booked and have
  not fired yet. A booking is named by its handle: the facility and the id the facility
  returned. Time is not modelled by a clock: the environment chooses which booked
  callback fires next (\<open>fire\<close> below); a timer keeps its delay in its handle.

  The callbacks that this repository books are closures over one store or one scheduler;
  they are the constructors of \<open>task\<close>:
  \<^item> \<open>FlushTask\<close> is \<^verbatim>\<open>() => this.tick()\<close> (state.ts, markDirty);
  \<^item> \<open>RejectTask p\<close> is the timeout closure of createSubscribeWrapper for the promise \<open>p\<close>;
  \<^item> \<open>DrainTask\<close> is the closure \<^verbatim>\<open>() => { _process(); if (!options?.block) _next(); }\<close>
    of idle-queue.ts.
\<close>

datatype mech = Idle | Frame | Timer nat

datatype task = FlushTask | RejectTask nat | DrainTask

type_synonym handle = "mech \<times> nat"

record host =
  has_idle :: bool
  has_raf :: bool
  pending :: "(handle \<times> task) list"
  next_id :: nat

definition book :: "mech \<Rightarrow> task \<Rightarrow> 'z host_scheme \<Rightarrow> handle \<times> 'z host_scheme" where
  "book m t h =
     ((m, next_id h),
      h\<lparr>pending := pending h @ [((m, next_id h), t)], next_id := Suc (next_id h)\<rparr>)"

text \<open>
  \<open>cancelIdleCallback(id)\<close>, \<open>cancelAnimationFrame(id)\<close> and \<open>clearTimeout(id)\<close>: the
  booking disappears if it is still there, and nothing happens otherwise.
\<close>

definition cancel_handle :: "handle \<Rightarrow> 'z host_scheme \<Rightarrow> 'z host_scheme" where
  "cancel_handle c h = h\<lparr>pending := filter (\<lambda>e. fst e \<noteq> c) (pending h)\<rparr>"

text \<open>
  \<open>nextTime(callback, {useIdle})\<close>. \<open>has_idle\<close> and \<open>has_raf\<close> say whether the globals
  \<open>requestIdleCallback\<close> and \<open>requestAnimationFrame\<close> are truthy. The closure returned,
  \<^verbatim>\<open>() => cancel?.()\<close>, is the handle; calling it is \<open>cancel_handle\<close>.
\<close>

definition nextTime :: "task \<Rightarrow> bool \<Rightarrow> 'z host_scheme \<Rightarrow> handle \<times> 'z host_scheme" where
  "nextTime callback useIdle h =
     (if useIdle \<and> has_idle h then book Idle callback h
      else if has_raf h then book Frame callback h
      else book (Timer 0) callback h)"

section \<open>The bounded queue (lib/idle-queue.ts, createQueue)\<close>

text \<open>
  The closure of \<open>createQueue\<close> owns an array \<open>items\<close> and a \<open>Set\<close> \<open>uniqueItems\<close>; the
  option \<open>unique\<close> chooses which of the two is used. A JavaScript \<open>Set\<close> iterates in
  insertion order and holds no value twice, so it is a list here: \<open>Set.add\<close> appends a
  value that is absent, \<open>Set.delete\<close> removes the value.
\<close>

record 'a queue =
  opt_unique :: bool
  items :: "'a list"
  uniqueItems :: "'a list"

definition createQueue :: "bool \<Rightarrow> 'a queue" where
  "createQueue u = \<lparr>opt_unique = u, items = [], uniqueItems = []\<rparr>"

definition set_add :: "'a \<Rightarrow> 'a list \<Rightarrow> 'a list" where
  "set_add x u = (if x \<in> set u then u else u @ [x])"

definition set_delete :: "'a \<Rightarrow> 'a list \<Rightarrow> 'a list" where
  "set_delete x u = removeAll x u"

definition size_q :: "'a queue \<Rightarrow> nat" where
  "size_q q = (if opt_unique q then length (uniqueItems q) else length (items q))"

definition add :: "'a \<Rightarrow> 'a queue \<Rightarrow> 'a queue" where
  "add item q =
     (if opt_unique q then q\<lparr>uniqueItems := set_add item (uniqueItems q)\<rparr>
      else q\<lparr>items := items q @ [item]\<rparr>)"

text \<open>
  The loop of \<open>take\<close> in unique mode: \<open>count\<close> times, push the first value of the set and
  delete it from the set. On an empty set the source would push \<open>undefined\<close>; \<open>take\<close>
  clamps \<open>count\<close> to the size first, so the loop never gets there, and the model stops.
\<close>

fun take_loop :: "nat \<Rightarrow> 'a list \<Rightarrow> 'a list \<Rightarrow> 'a list \<times> 'a list" where
  "take_loop 0 u tookItems = (tookItems, u)"
| "take_loop (Suc n) u tookItems =
     (case u of
        [] \<Rightarrow> (tookItems, u)
      | x # _ \<Rightarrow> take_loop n (set_delete x u) (tookItems @ [x]))"

text \<open>
  \<open>take(count)\<close>. \<open>count\<close> is a JavaScript number, an integer here; a negative count
  takes nothing in both modes (the loop does not run, \<open>splice(0, count)\<close> deletes nothing).
\<close>

definition take_q :: "int \<Rightarrow> 'a queue \<Rightarrow> 'a list \<times> 'a queue" where
  "take_q count q =
     (let count' = (if count > int (size_q q) then int (size_q q) else count) in
      if opt_unique q then
        (let (tookItems, u) = take_loop (nat count') (uniqueItems q) []
         in (tookItems, q\<lparr>uniqueItems := u\<rparr>))
      else (take (nat count') (items q), q\<lparr>items := drop (nat count') (items q)\<rparr>))"

definition destroy_q :: "'a queue \<Rightarrow> 'a queue" where
  "destroy_q q = q\<lparr>items := [], uniqueItems := []\<rparr>"

text \<open>What the queue holds, front first, and the invariant of the set.\<close>

definition contents :: "'a queue \<Rightarrow> 'a list" where
  "contents q = (if opt_unique q then uniqueItems q else items q)"

definition queue_inv :: "'a queue \<Rightarrow> bool" where
  "queue_inv q = distinct (uniqueItems q)"

section \<open>The idle queue scheduler (lib/idle-queue.ts, createScheduler)\<close>

text \<open>
  The processing hook is user code. What the scheduler sees of it is whether the value
  it returns is an awaitable; \<open>SyncHook n\<close> and \<open>AsyncHook n\<close> are the user's function
  number \<open>n\<close>, returning a plain value or a promise. The scheduler records every
  invocation of the hook in \<open>hook_calls\<close> (a ghost field), and \<open>awaiting\<close> holds the
  invocations (by their position in \<open>hook_calls\<close>) whose promise \<open>_process\<close> is suspended
  on at its \<open>await\<close>.
\<close>

datatype hook = SyncHook nat | AsyncHook nat

fun returns_promise :: "hook \<Rightarrow> bool" where
  "returns_promise (SyncHook _) = False"
| "returns_promise (AsyncHook _) = True"

record 'a scheduler = host +
  opt_useIdle :: bool
  opt_batchSize :: "int option"
  opt_block :: bool
  cancel :: "handle option"
  onTake :: "hook option"
  q :: "'a queue"
  hook_calls :: "(hook \<times> 'a list) list"
  awaiting :: "nat list"

definition createScheduler ::
  "bool \<Rightarrow> int option \<Rightarrow> bool \<Rightarrow> bool \<Rightarrow> hook option \<Rightarrow> host \<Rightarrow> 'a scheduler" where
  "createScheduler useIdle batchSize block unique hk h =
     host.extend h
       (scheduler.fields useIdle batchSize block None hk (createQueue unique) [] [])"

text \<open>\<open>_next\<close>, named \<open>sched_next\<close> (\<open>next\<close> is a keyword of the proof language).\<close>

definition sched_next :: "'a scheduler \<Rightarrow> 'a scheduler" where
  "sched_next s =
     (if size_q (q s) = 0 then s
      else if cancel s \<noteq> None then s
      else (let (c, s') = nextTime DrainTask (opt_useIdle s) s in s'\<lparr>cancel := Some c\<rparr>))"

definition enqueue :: "'a \<Rightarrow> 'a scheduler \<Rightarrow> 'a scheduler" where
  "enqueue item s = sched_next (s\<lparr>q := add item (q s)\<rparr>)"

text \<open>\<open>options?.batchSize || 1\<close>: an absent or zero batch size is 1.\<close>

definition batch :: "'a scheduler \<Rightarrow> int" where
  "batch s = (case opt_batchSize s of None \<Rightarrow> 1 | Some n \<Rightarrow> if n = 0 then 1 else n)"

text \<open>
  \<open>_process\<close> up to its \<open>await\<close>: take the batch, call the hook; in blocking mode with an
  awaitable result suspend, otherwise run on to the end of the function.
\<close>

definition process :: "'a scheduler \<Rightarrow> 'a scheduler" where
  "process s =
     (let (its, q') = take_q (batch s) (q s);
          s1 = s\<lparr>q := q'\<rparr>
      in case onTake s1 of
           None \<Rightarrow> (if opt_block s1 then sched_next s1 else s1)
         | Some hk \<Rightarrow>
             (let s2 = s1\<lparr>hook_calls := hook_calls s1 @ [(hk, its)]\<rparr> in
              if returns_promise hk \<and> opt_block s2
              then s2\<lparr>awaiting := awaiting s2 @ [length (hook_calls s1)]\<rparr>
              else if opt_block s2 then sched_next s2 else s2))"

text \<open>
  The rest of \<open>_process\<close> after the \<open>await\<close>, when the promise of invocation \<open>i\<close>
  settles. A rejection leaves \<open>_process\<close> by the exception: \<open>_next\<close> is not called.
\<close>

definition settle :: "nat \<Rightarrow> bool \<Rightarrow> 'a scheduler \<Rightarrow> 'a scheduler" where
  "settle i fulfilled s =
     (if i \<in> set (awaiting s) then
        (let s1 = s\<lparr>awaiting := removeAll i (awaiting s)\<rparr> in
         if fulfilled \<and> opt_block s1 then sched_next s1 else s1)
      else s)"

text \<open>The callback booked by \<open>_next\<close>.\<close>

definition drain :: "'a scheduler \<Rightarrow> 'a scheduler" where
  "drain s = (let s1 = process s in if \<not> opt_block s1 then sched_next s1 else s1)"

text \<open>The host fires the booking \<open>c\<close> of a scheduler.\<close>

definition fire_drain :: "handle \<Rightarrow> 'a scheduler \<Rightarrow> 'a scheduler" where
  "fire_drain c s =
     (case map_of (pending s) c of
        Some DrainTask \<Rightarrow> drain (cancel_handle c s)
      | _ \<Rightarrow> s)"

definition setOnTake :: "hook \<Rightarrow> 'a scheduler \<Rightarrow> 'a scheduler" where
  "setOnTake callback s = s\<lparr>onTake := Some callback\<rparr>"

definition destroy :: "'a scheduler \<Rightarrow> 'a scheduler" where
  "destroy s =
     (let s1 = s\<lparr>q := destroy_q (q s), onTake := None\<rparr> in
      case cancel s1 of None \<Rightarrow> s1 | Some c \<Rightarrow> cancel_handle c s1)"

section \<open>The state store (lib/state.ts)\<close>

text \<open>
  A state object is a JavaScript object: an identity and its own properties. The store
  never writes into an object it holds (a flush builds a new one), so an object is the
  pair of its identity and its property map. Field values are of any type \<open>'v\<close>; reading
  a property that is absent gives \<open>undefined\<close>, here \<open>None\<close>. A patch is only read, at
  the flush: it is a property map.
\<close>

type_synonym key = string

type_synonym 'v obj = "key \<rightharpoonup> 'v"

type_synonym 'v ref = "nat \<times> 'v obj"

text \<open>
  Functions compare by reference (\<open>ret.subscriber == subscriber\<close>). \<open>UserCb n\<close> is the
  user's function number \<open>n\<close>; \<open>WrapperCb p\<close> is the closure \<open>wrapper\<close> that
  createSubscribeWrapper builds for the promise \<open>p\<close>. A \<open>SubscriberMeta\<close> object has an
  identity of its own, \<open>rid\<close>, because \<open>_removedSubscribers.indexOf(sub)\<close> compares
  objects; \<open>keys\<close> is \<open>None\<close> when the property is absent.
\<close>

datatype callback = UserCb nat | WrapperCb nat

record meta =
  rid :: nat
  subscriber :: callback
  keys :: "key list option"

text \<open>
  A promise is pending, fulfilled with a value (a state object, or \<open>undefined\<close>, here
  \<open>None\<close>) or rejected with a reason. \<open>timer\<close> is the closure variable \<open>id\<close> of the
  wrapper of the promise.
\<close>

datatype 'v outcome = Pending | Fulfilled "'v ref option" | Rejected string

record 'v promise =
  settled :: "'v outcome"
  timer :: handle

text \<open>
  What user code and the language contribute: \<open>loose_neq\<close> is the operator \<open>!=\<close> on
  two property values (\<open>None\<close> for \<open>undefined\<close>), and \<open>unsubs n\<close> lists the callbacks
  whose \<open>unsubscribe\<close> closure the user's function \<open>n\<close> calls when it is invoked. The
  operations of this section are those of a store whose subscriber callbacks do that,
  in this order, and return: no flush then starts inside a flush, and a notification
  pass is a fold over the list it starts with. Section \<open>Flushes inside a flush\<close> has the
  operations for callbacks that also call \<open>setState\<close>, with the pass as the source runs
  it; the two agree on the callbacks of this section (\<open>tick_re_code_of\<close>).
\<close>

record 'v env =
  loose_neq :: "'v option \<Rightarrow> 'v option \<Rightarrow> bool"
  unsubs :: "nat \<Rightarrow> callback list"

text \<open>
  The fields of \<open>State\<close> and of its \<open>StateSubscriber\<close>, with the next identities of the
  heap (\<open>next_rid\<close> for SubscriberMeta objects, \<open>next_obj\<close> for state objects), the
  promises made by \<open>setState\<close> and the log of the subscriber invocations: the callback and
  the identity of the state object it received (a ghost field). The static counter
  \<open>State._id\<close> is read by no operation and is left out.
\<close>

record 'v store = host +
  state :: "'v ref"
  stateChanges :: "'v obj list"
  dirty :: bool
  immediateFlush :: bool
  subscribers :: "meta list"
  removedSubscribers :: "meta list"
  next_rid :: nat
  next_obj :: nat
  promises :: "'v promise list"
  calls :: "(callback \<times> nat) list"

subsection \<open>StateSubscriber\<close>

definition subscribe :: "callback \<Rightarrow> key list option \<Rightarrow> 'v store \<Rightarrow> 'v store" where
  "subscribe cb ks s =
     (if find (\<lambda>ret. subscriber ret = cb) (subscribers s) = None then
        s\<lparr>subscribers := subscribers s @
             [\<lparr>rid = next_rid s, subscriber = cb,
               keys = (case ks of None \<Rightarrow> None | Some [] \<Rightarrow> None | Some (k # r) \<Rightarrow> Some (k # r))\<rparr>],
          next_rid := Suc (next_rid s)\<rparr>
      else s)"

text \<open>The closure that \<open>subscribe(cb, _)\<close> returns; it depends on \<open>cb\<close> only.\<close>

definition unsubscribe :: "callback \<Rightarrow> 'v store \<Rightarrow> 'v store" where
  "unsubscribe cb s =
     (case find (\<lambda>ret. subscriber ret = cb) (subscribers s) of
        None \<Rightarrow> s
      | Some found \<Rightarrow> s\<lparr>removedSubscribers := removedSubscribers s @ [found]\<rparr>)"

text \<open>\<open>resolve\<close> and \<open>reject\<close> of a promise act only while it is pending.\<close>

fun is_pending :: "'v outcome \<Rightarrow> bool" where
  "is_pending Pending = True"
| "is_pending _ = False"

definition resolve :: "nat \<Rightarrow> 'v ref \<Rightarrow> 'v store \<Rightarrow> 'v store" where
  "resolve p v s =
     (if p < length (promises s) \<and> is_pending (settled (promises s ! p))
      then s\<lparr>promises := (promises s)[p := (promises s ! p)\<lparr>settled := Fulfilled (Some v)\<rparr>]\<rparr>
      else s)"

definition reject :: "nat \<Rightarrow> string \<Rightarrow> 'v store \<Rightarrow> 'v store" where
  "reject p e s =
     (if p < length (promises s) \<and> is_pending (settled (promises s ! p))
      then s\<lparr>promises := (promises s)[p := (promises s ! p)\<lparr>settled := Rejected e\<rparr>]\<rparr>
      else s)"

definition clearTimeout :: "nat \<Rightarrow> 'v store \<Rightarrow> 'v store" where
  "clearTimeout p s =
     (if p < length (promises s) then cancel_handle (timer (promises s ! p)) s else s)"

text \<open>
  One invocation \<open>ret.subscriber(state)\<close>. A user callback calls the unsubscribe closures
  of its body; the wrapper runs \<^verbatim>\<open>clearTimeout(id); subscriber(state); unsub()\<close>, where
  \<open>subscriber\<close> is the \<open>resolve\<close> of its promise and \<open>unsub\<close> its own unsubscribe.
\<close>

definition invoke :: "'v env \<Rightarrow> callback \<Rightarrow> 'v ref \<Rightarrow> 'v store \<Rightarrow> 'v store" where
  "invoke E cb st s =
     (let s1 = s\<lparr>calls := calls s @ [(cb, fst st)]\<rparr> in
      case cb of
        UserCb n \<Rightarrow> foldl (\<lambda>s' c. unsubscribe c s') s1 (unsubs E n)
      | WrapperCb p \<Rightarrow> unsubscribe (WrapperCb p) (resolve p st (clearTimeout p s1)))"

fun keys_changed :: "('v option \<Rightarrow> 'v option \<Rightarrow> bool) \<Rightarrow> 'v obj \<Rightarrow> 'v obj \<Rightarrow> key list \<Rightarrow> bool" where
  "keys_changed neq prevState newState [] = False"
| "keys_changed neq prevState newState (k # ks) =
     (if neq (prevState k) (newState k) then True
      else keys_changed neq prevState newState ks)"

definition isStateChangedWithKeys ::
  "('v option \<Rightarrow> 'v option \<Rightarrow> bool) \<Rightarrow> 'v ref \<Rightarrow> 'v ref \<Rightarrow> key list \<Rightarrow> bool" where
  "isStateChangedWithKeys neq prevState newState ks =
     (if fst prevState = fst newState then False
      else if ks = [] then False
      else keys_changed neq (snd prevState) (snd newState) ks)"

text \<open>
  The list that \<open>notify\<close> iterates, and the fields after the pruning. With no removal
  pending the list is \<open>_subscribers\<close> itself; callbacks that only unsubscribe do not
  write to it during the pass (\<open>forEach_live\<close> below is the general case).
\<close>

definition live :: "'v store \<Rightarrow> meta list" where
  "live s =
     (if removedSubscribers s = [] then subscribers s
      else filter (\<lambda>sub. rid sub \<notin> set (map rid (removedSubscribers s))) (subscribers s))"

definition prune :: "'v store \<Rightarrow> 'v store" where
  "prune s =
     (if removedSubscribers s = [] then s
      else s\<lparr>subscribers := live s, removedSubscribers := []\<rparr>)"

definition notify_one :: "'v env \<Rightarrow> 'v ref \<Rightarrow> 'v ref \<Rightarrow> 'v store \<Rightarrow> meta \<Rightarrow> 'v store" where
  "notify_one E st prevState s ret =
     (case keys ret of
        None \<Rightarrow> invoke E (subscriber ret) st s
      | Some ks \<Rightarrow>
          if isStateChangedWithKeys (loose_neq E) prevState st ks
          then invoke E (subscriber ret) st s else s)"

definition notify :: "'v env \<Rightarrow> 'v ref \<Rightarrow> 'v ref \<Rightarrow> 'v store \<Rightarrow> 'v store" where
  "notify E st prevState s = foldl (notify_one E st prevState) (prune s) (live s)"

subsection \<open>State\<close>

definition flush :: "'v env \<Rightarrow> 'v ref \<Rightarrow> 'v store \<Rightarrow> 'v store" where
  "flush E st s = notify E st (state s) (s\<lparr>state := st\<rparr>)"

text \<open>
  \<open>Object.assign({}, ...sources)\<close> copies the own properties of each source in turn
  into a new object: \<open>assign sources\<close> is its property map, and the new object takes the
  identity \<open>next_obj\<close>.
\<close>

definition assign :: "'v obj list \<Rightarrow> 'v obj" where
  "assign sources = foldl (++) Map.empty sources"

definition tick :: "'v env \<Rightarrow> 'v store \<Rightarrow> 'v store" where
  "tick E s =
     (let s1 = s\<lparr>dirty := False\<rparr>;
          (props, s2) =
            (if stateChanges s1 \<noteq> [] then
               (let flushableStates = stateChanges s1
                in (assign (Map.empty # snd (state s1) # flushableStates),
                    s1\<lparr>stateChanges := []\<rparr>))
             else (assign [snd (state s1)], s1));
          newState = (next_obj s2, props)
      in flush E newState (s2\<lparr>next_obj := Suc (next_obj s2)\<rparr>))"

definition markDirty :: "'v env \<Rightarrow> 'v store \<Rightarrow> 'v store" where
  "markDirty E s =
     (if dirty s then s
      else (let s1 = s\<lparr>dirty := True\<rparr> in
            if immediateFlush s1 then tick E s1
            else snd (nextTime FlushTask False s1)))"

text \<open>
  The executor that createSubscribeWrapper(timeout) returns, run by \<open>new Promise\<close> with
  the \<open>resolve\<close> and \<open>reject\<close> of the new promise, number \<open>length (promises s)\<close>.
\<close>

definition subscribeWrapper :: "nat \<Rightarrow> 'v store \<Rightarrow> nat \<times> 'v store" where
  "subscribeWrapper timeout s =
     (let p = length (promises s);
          s1 = subscribe (WrapperCb p) None s;
          (c, s2) = book (Timer timeout) (RejectTask p) s1
      in (p, s2\<lparr>promises := promises s2 @ [\<lparr>settled = Pending, timer = c\<rparr>]\<rparr>))"

text \<open>
  \<open>setState(state, subscriber?)\<close> returns the unsubscribe closure of \<open>subscriber\<close>, or the
  promise \<^verbatim>\<open>new Promise(...).catch(noop)\<close>. \<open>catch_noop\<close> is what \<open>.catch(noop)\<close> makes
  of the promise \<open>p\<close> of the executor: \<open>noop\<close> returns \<open>undefined\<close>, so a rejection of \<open>p\<close>
  fulfils the returned promise with \<open>undefined\<close>.
\<close>

datatype result = Unsubscribe callback | Promise nat

definition setState :: "'v env \<Rightarrow> 'v obj \<Rightarrow> callback option \<Rightarrow> 'v store \<Rightarrow> result \<times> 'v store" where
  "setState E patch sub s =
     (let s1 = markDirty E (s\<lparr>stateChanges := stateChanges s @ [patch]\<rparr>) in
      case sub of
        Some cb \<Rightarrow> (Unsubscribe cb, subscribe cb None s1)
      | None \<Rightarrow> (let (p, s2) = subscribeWrapper 200 s1 in (Promise p, s2)))"



definition getState :: "'v store \<Rightarrow> 'v ref" where
  "getState s = state s"

definition dispose :: "'v store \<Rightarrow> 'v store" where
  "dispose s =
     s\<lparr>stateChanges := [], state := (next_obj s, Map.empty), next_obj := Suc (next_obj s),
       subscribers := [], removedSubscribers := []\<rparr>"

text \<open>
  \<open>new State(initialState, immediateFlush)\<close>. The store keeps the caller's object; the
  identities above it are unused.
\<close>

definition createState :: "'v env \<Rightarrow> 'v ref \<Rightarrow> bool \<Rightarrow> host \<Rightarrow> 'v store" where
  "createState E initialState immediate h =
     markDirty E
       (host.extend h
          (store.fields initialState [] False immediate [] [] 0 (Suc (fst initialState)) [] []))"

text \<open>
  The host fires the booking \<open>c\<close> of a store: the flush, or the timeout closure
  \<^verbatim>\<open>() => { clearTimeout(id); if (error) error('state not update'); }\<close>.
\<close>

definition fire :: "'v env \<Rightarrow> handle \<Rightarrow> 'v store \<Rightarrow> 'v store" where
  "fire E c s =
     (case map_of (pending s) c of
        Some FlushTask \<Rightarrow> tick E (cancel_handle c s)
      | Some (RejectTask p) \<Rightarrow> reject p ''state not update'' (cancel_handle c s)
      | _ \<Rightarrow> s)"

text \<open>The invocations made by the flush of \<open>s\<close>.\<close>

definition flush_calls :: "'v env \<Rightarrow> 'v store \<Rightarrow> (callback \<times> nat) list" where
  "flush_calls E s = drop (length (calls s)) (calls (tick E s))"

section \<open>Flushes inside a flush (lib/state.ts, re-entrant)\<close>

text \<open>
  A subscriber callback may do more than unsubscribe: it may call \<open>setState\<close>, and
  on a store with \<open>immediateFlush\<close> that call runs \<open>tick\<close>, and so a whole notification
  pass, inside the pass that invoked the callback. This section has the operations for
  such callbacks. The body of the user's function \<open>n\<close> is the list \<open>body n\<close> of the
  calls it makes, in order: of an unsubscribe closure, or of \<open>setState(patch)\<close>,
  \<open>setState(patch, cb)\<close>.
\<close>

datatype 'v action = CallUnsubscribe callback | CallSetState "'v obj" "callback option"

record 'v code =
  neq :: "'v option \<Rightarrow> 'v option \<Rightarrow> bool"
  body :: "nat \<Rightarrow> 'v action list"

text \<open>
  The operations below take the flush that a nested \<open>markDirty\<close> runs as the
  argument \<open>T\<close>; \<open>None\<close> is a call that does not return. \<open>tick_re d\<close> is \<open>tick\<close> with
  room for \<open>d\<close> flushes nested in one another: a flush nested deeper than that does
  not return a store (in the source the recursion ends when the stack is used up).
\<close>

type_synonym 'v flusher = "'v store \<Rightarrow> 'v store option"

definition markDirty_re :: "'v flusher \<Rightarrow> 'v store \<Rightarrow> 'v store option" where
  "markDirty_re T s =
     (if dirty s then Some s
      else (let s1 = s\<lparr>dirty := True\<rparr> in
            if immediateFlush s1 then T s1
            else Some (snd (nextTime FlushTask False s1))))"

definition setState_re ::
  "'v flusher \<Rightarrow> 'v obj \<Rightarrow> callback option \<Rightarrow> 'v store \<Rightarrow> (result \<times> 'v store) option" where
  "setState_re T patch sub s =
     (case markDirty_re T (s\<lparr>stateChanges := stateChanges s @ [patch]\<rparr>) of
        None \<Rightarrow> None
      | Some s1 \<Rightarrow>
          (case sub of
             Some cb \<Rightarrow> Some (Unsubscribe cb, subscribe cb None s1)
           | None \<Rightarrow> (let (p, s2) = subscribeWrapper 200 s1 in Some (Promise p, s2))))"

fun act :: "'v flusher \<Rightarrow> 'v action \<Rightarrow> 'v store \<Rightarrow> 'v store option" where
  "act T (CallUnsubscribe c) s = Some (unsubscribe c s)"
| "act T (CallSetState patch sub) s = map_option snd (setState_re T patch sub s)"

fun run_body :: "'v flusher \<Rightarrow> 'v action list \<Rightarrow> 'v store \<Rightarrow> 'v store option" where
  "run_body T [] s = Some s"
| "run_body T (a # as) s =
     (case act T a s of None \<Rightarrow> None | Some s' \<Rightarrow> run_body T as s')"

definition invoke_re ::
  "'v flusher \<Rightarrow> 'v code \<Rightarrow> callback \<Rightarrow> 'v ref \<Rightarrow> 'v store \<Rightarrow> 'v store option" where
  "invoke_re T C cb st s =
     (let s1 = s\<lparr>calls := calls s @ [(cb, fst st)]\<rparr> in
      case cb of
        UserCb n \<Rightarrow> run_body T (body C n) s1
      | WrapperCb p \<Rightarrow> Some (unsubscribe (WrapperCb p) (resolve p st (clearTimeout p s1))))"

definition notify_one_re ::
  "'v flusher \<Rightarrow> 'v code \<Rightarrow> 'v ref \<Rightarrow> 'v ref \<Rightarrow> 'v store \<Rightarrow> meta \<Rightarrow> 'v store option" where
  "notify_one_re T C st prevState s ret =
     (case keys ret of
        None \<Rightarrow> invoke_re T C (subscriber ret) st s
      | Some ks \<Rightarrow>
          if isStateChangedWithKeys (neq C) prevState st ks
          then invoke_re T C (subscriber ret) st s else Some s)"

text \<open>
  \<open>subscribers.forEach(...)\<close>. \<open>forEach\<close> reads the length of the array once and then,
  for each index below it, calls the function on the element at that index if the array
  has one at that moment. With removals pending, \<open>notify\<close> iterates an array of its own
  (\<open>forEach_copy\<close>); with none, \<open>subscribers\<close> is \<open>this._subscribers\<close> itself, the array
  into which \<open>subscribe\<close> pushes and which the \<open>splice\<close> of a nested \<open>notify\<close> rewrites
  in place (\<open>forEach_live\<close>, which reads the field \<open>subscribers\<close> of the store at every
  index).
\<close>

fun forEach_copy ::
  "('v store \<Rightarrow> meta \<Rightarrow> 'v store option) \<Rightarrow> meta list \<Rightarrow> 'v store \<Rightarrow> 'v store option" where
  "forEach_copy f [] s = Some s"
| "forEach_copy f (ret # l) s =
     (case f s ret of None \<Rightarrow> None | Some s' \<Rightarrow> forEach_copy f l s')"

fun forEach_live ::
  "('v store \<Rightarrow> meta \<Rightarrow> 'v store option) \<Rightarrow> nat list \<Rightarrow> 'v store \<Rightarrow> 'v store option" where
  "forEach_live f [] s = Some s"
| "forEach_live f (k # ks) s =
     (if k < length (subscribers s) then
        (case f s (subscribers s ! k) of None \<Rightarrow> None | Some s' \<Rightarrow> forEach_live f ks s')
      else forEach_live f ks s)"

definition notify_re ::
  "'v flusher \<Rightarrow> 'v code \<Rightarrow> 'v ref \<Rightarrow> 'v ref \<Rightarrow> 'v store \<Rightarrow> 'v store option" where
  "notify_re T C st prevState s =
     (if removedSubscribers s = []
      then forEach_live (notify_one_re T C st prevState) [0..<length (subscribers s)] s
      else forEach_copy (notify_one_re T C st prevState) (live s)
             (s\<lparr>subscribers := live s, removedSubscribers := []\<rparr>))"

definition flush_re :: "'v flusher \<Rightarrow> 'v code \<Rightarrow> 'v ref \<Rightarrow> 'v store \<Rightarrow> 'v store option" where
  "flush_re T C st s = notify_re T C st (state s) (s\<lparr>state := st\<rparr>)"

definition tick_body :: "'v flusher \<Rightarrow> 'v code \<Rightarrow> 'v store \<Rightarrow> 'v store option" where
  "tick_body T C s =
     (let s1 = s\<lparr>dirty := False\<rparr>;
          (props, s2) =
            (if stateChanges s1 \<noteq> [] then
               (let flushableStates = stateChanges s1
                in (assign (Map.empty # snd (state s1) # flushableStates),
                    s1\<lparr>stateChanges := []\<rparr>))
             else (assign [snd (state s1)], s1));
          newState = (next_obj s2, props)
      in flush_re T C newState (s2\<lparr>next_obj := Suc (next_obj s2)\<rparr>))"

primrec tick_re :: "nat \<Rightarrow> 'v code \<Rightarrow> 'v store \<Rightarrow> 'v store option" where
  "tick_re 0 C s = None"
| "tick_re (Suc d) C s = tick_body (tick_re d C) C s"

text \<open>The host fires a booking, with the flush \<open>T\<close>.\<close>

definition fire_re :: "'v flusher \<Rightarrow> handle \<Rightarrow> 'v store \<Rightarrow> 'v store option" where
  "fire_re T c s =
     (case map_of (pending s) c of
        Some FlushTask \<Rightarrow> T (cancel_handle c s)
      | Some (RejectTask p) \<Rightarrow> Some (reject p ''state not update'' (cancel_handle c s))
      | _ \<Rightarrow> Some s)"

text \<open>
  The callbacks of the previous sections, as bodies: they only unsubscribe.
\<close>

definition code_of :: "'v env \<Rightarrow> 'v code" where
  "code_of E = \<lparr>neq = loose_neq E, body = (\<lambda>n. map CallUnsubscribe (unsubs E n))\<rparr>"

section \<open>Notions used in the statements\<close>

text \<open>
  The events a scheduler can see: the calls of its three operations, the host firing a
  booking, and the promise of the hook invocation \<open>i\<close> settling.
\<close>

datatype 'a sched_event =
  Enqueue 'a | SetOnTake hook | Destroy | FireDrain handle | Settle nat bool

fun sched_step :: "'a sched_event \<Rightarrow> 'a scheduler \<Rightarrow> 'a scheduler" where
  "sched_step (Enqueue x) s = enqueue x s"
| "sched_step (SetOnTake hk) s = setOnTake hk s"
| "sched_step Destroy s = destroy s"
| "sched_step (FireDrain c) s = fire_drain c s"
| "sched_step (Settle i ok) s = settle i ok s"

definition run_sched :: "'a sched_event list \<Rightarrow> 'a scheduler \<Rightarrow> 'a scheduler" where
  "run_sched es s = foldl (\<lambda>s' e. sched_step e s') s es"

text \<open>A scheduler whose cancel handle is set while no drain is booked.\<close>

definition stuck :: "'a scheduler \<Rightarrow> bool" where
  "stuck s = (cancel s \<noteq> None \<and> list_all (\<lambda>e. snd e \<noteq> DrainTask) (pending s))"

text \<open>Every booked drain is the one the cancel handle names.\<close>

definition drain_tracked :: "'a scheduler \<Rightarrow> bool" where
  "drain_tracked s =
     list_all (\<lambda>e. cancel s = Some (fst e)) (filter (\<lambda>e. snd e = DrainTask) (pending s))"

text \<open>
  The unsubscribe closures a callback calls when it is invoked, the records these calls
  find in a subscriber list, and the test \<open>notify\<close> makes before it invokes a record.
\<close>

definition targets :: "'v env \<Rightarrow> callback \<Rightarrow> callback list" where
  "targets E cb = (case cb of UserCb n \<Rightarrow> unsubs E n | WrapperCb p \<Rightarrow> [WrapperCb p])"

definition marks :: "meta list \<Rightarrow> callback list \<Rightarrow> meta list" where
  "marks subs cs = List.map_filter (\<lambda>c. find (\<lambda>ret. subscriber ret = c) subs) cs"

definition selected :: "'v env \<Rightarrow> 'v ref \<Rightarrow> 'v ref \<Rightarrow> meta \<Rightarrow> bool" where
  "selected E prevState st ret =
     (case keys ret of
        None \<Rightarrow> True
      | Some ks \<Rightarrow> isStateChangedWithKeys (loose_neq E) prevState st ks)"

text \<open>The property map a flush of \<open>s\<close> builds.\<close>

definition merged :: "'v store \<Rightarrow> 'v obj" where
  "merged s = foldl (++) (snd (state s)) (stateChanges s)"

text \<open>Queueing patches one after the other, each with or without a callback.\<close>

definition queue_all :: "'v env \<Rightarrow> ('v obj \<times> callback option) list \<Rightarrow> 'v store \<Rightarrow> 'v store" where
  "queue_all E ps s = foldl (\<lambda>s' pc. snd (setState E (fst pc) (snd pc) s')) s ps"

text \<open>
  The invariant of a store between two calls of its operations: no callback is
  registered twice; the identities in use are below the next ones; a registered wrapper
  belongs to a promise that exists; with \<open>immediateFlush\<close> no flush is outstanding.
\<close>

fun below_promises :: "nat \<Rightarrow> callback \<Rightarrow> bool" where
  "below_promises n (UserCb _) = True"
| "below_promises n (WrapperCb p) = (p < n)"

definition wf :: "'v store \<Rightarrow> bool" where
  "wf s =
     (distinct (map subscriber (subscribers s))
      \<and> list_all (\<lambda>ret. rid ret < next_rid s) (subscribers s)
      \<and> list_all (\<lambda>ret. rid ret < next_rid s) (removedSubscribers s)
      \<and> list_all (\<lambda>ret. below_promises (length (promises s)) (subscriber ret)) (subscribers s)
      \<and> list_all (\<lambda>e. snd (fst e) < next_id s) (pending s)
      \<and> fst (state s) < next_obj s
      \<and> \<not> (immediateFlush s \<and> dirty s))"

text \<open>
  One flush \<open>T'\<close> returns whatever the flush \<open>T\<close> returns.
\<close>

definition extends :: "'v flusher \<Rightarrow> 'v flusher \<Rightarrow> bool" where
  "extends T T' = (\<forall>s x. T s = Some x \<longrightarrow> T' s = Some x)"

text \<open>
  What a caller and the host can do to a store: subscribe one of its functions, call the
  unsubscribe closure of one, call \<open>setState\<close> with or without one, call \<open>dispose\<close>;
  the host fires a booking.
\<close>

datatype 'v store_event =
  DoSubscribe nat "key list option" | DoUnsubscribe nat | DoSetState "'v obj" "nat option"
  | DoDispose | DoFire handle

fun store_step :: "'v env \<Rightarrow> 'v store_event \<Rightarrow> 'v store \<Rightarrow> 'v store" where
  "store_step E (DoSubscribe n ks) s = subscribe (UserCb n) ks s"
| "store_step E (DoUnsubscribe n) s = unsubscribe (UserCb n) s"
| "store_step E (DoSetState patch sub) s = snd (setState E patch (map_option UserCb sub) s)"
| "store_step E DoDispose s = dispose s"
| "store_step E (DoFire c) s = fire E c s"

definition run_store :: "'v env \<Rightarrow> 'v store_event list \<Rightarrow> 'v store \<Rightarrow> 'v store" where
  "run_store E es s = foldl (\<lambda>s' e. store_step E e s') s es"

text \<open>
  Concrete values for the examples: the primitive values \<open>undefined\<close>, \<open>null\<close>, booleans
  and integer numbers, on which \<open>!=\<close> needs no conversion of strings or objects.
\<close>

datatype prim = PUndefined | PNull | PBool bool | PNum int

fun prim_loose_eq :: "prim \<Rightarrow> prim \<Rightarrow> bool" where
  "prim_loose_eq PUndefined y = (y = PUndefined \<or> y = PNull)"
| "prim_loose_eq PNull y = (y = PUndefined \<or> y = PNull)"
| "prim_loose_eq (PBool a) (PBool b) = (a = b)"
| "prim_loose_eq (PBool a) (PNum n) = ((if a then 1 else 0) = n)"
| "prim_loose_eq (PNum m) (PBool b) = (m = (if b then 1 else 0))"
| "prim_loose_eq (PNum m) (PNum n) = (m = n)"
| "prim_loose_eq _ _ = False"

definition prim_value :: "prim option \<Rightarrow> prim" where
  "prim_value v = (case v of None \<Rightarrow> PUndefined | Some x \<Rightarrow> x)"

definition prim_neq :: "prim option \<Rightarrow> prim option \<Rightarrow> bool" where
  "prim_neq a b = (\<not> prim_loose_eq (prim_value a) (prim_value b))"

definition host0 :: host where
  "host0 = \<lparr>has_idle = True, has_raf = True, pending = [], next_id = 0\<rparr>"

text \<open>User code in which callback 1 unsubscribes itself and callback 2.\<close>

definition env0 :: "prim env" where
  "env0 = \<lparr>loose_neq = prim_neq, unsubs = (\<lambda>n. if n = 1 then [UserCb 1, UserCb 2] else [])\<rparr>"

definition store0 :: "bool \<Rightarrow> prim store" where
  "store0 immediate = createState env0 (0, [''count'' \<mapsto> PNum 0]) immediate host0"

text \<open>
  A store with three subscribers: callback 1 listens to every change, callback 2 to the
  key \<open>x\<close>, callback 3 to every change; \<open>storeR\<close> flushes immediately, \<open>storeD\<close> defers.
  In \<open>codeR\<close> callback 1 calls its own unsubscribe closure and then
  \<open>setState({y: 1}, callback 4)\<close>; the other callbacks do nothing.
\<close>

definition storeR :: "prim store" where
  "storeR = subscribe (UserCb 3) None (subscribe (UserCb 2) (Some [''x''])
              (subscribe (UserCb 1) None (createState env0 (0, [''x'' \<mapsto> PNum 0]) True host0)))"

definition storeD :: "prim store" where
  "storeD = subscribe (UserCb 3) None (subscribe (UserCb 2) (Some [''x''])
              (subscribe (UserCb 1) None (createState env0 (0, [''x'' \<mapsto> PNum 0]) False host0)))"

definition codeR :: "prim code" where
  "codeR = \<lparr>neq = prim_neq,
     body = (\<lambda>n. if n = 1 then [CallUnsubscribe (UserCb 1),
                                  CallSetState [''y'' \<mapsto> PNum 1] (Some (UserCb 4))] else [])\<rparr>"


text \<open>
  Scenario C: \<open>batchSize = 2\<close>, \<open>block = true\<close>, a hook that returns a promise, five
  items enqueued.
\<close>

definition scenarioC :: "string scheduler" where
  "scenarioC =
     enqueue ''e'' (enqueue ''d'' (enqueue ''c'' (enqueue ''b'' (enqueue ''a''
       (createScheduler False (Some 2) True False (Some (AsyncHook 0)) host0)))))"

text \<open>Scenario D: a unique queue after \<open>add('a')\<close>, \<open>add('b')\<close>, \<open>add('a')\<close>.\<close>

definition scenarioD :: "string queue" where
  "scenarioD = add ''a'' (add ''b'' (add ''a'' (createQueue True)))"

section \<open>Properties of the bounded queue\<close>

lemma take_loop_distinct:
  "distinct u \<Longrightarrow> take_loop n u acc = (acc @ take n u, drop n u)"
proof (induction n arbitrary: u acc)
  case 0
  then show ?case by simp
next
  case (Suc n)
  show ?case
  proof (cases u)
    case Nil
    then show ?thesis by simp
  next
    case (Cons x xs)
    with Suc.prems have "x \<notin> set xs" "distinct xs" by simp_all
    then have "set_delete x u = xs" using Cons by (simp add: set_delete_def)
    with Suc.IH [OF \<open>distinct xs\<close>] Cons show ?thesis by simp
  qed
qed

lemma queue_inv_create: "queue_inv (createQueue u)"
  by (simp add: queue_inv_def createQueue_def)

lemma queue_inv_add: "queue_inv qu \<Longrightarrow> queue_inv (add x qu)"
  by (simp add: queue_inv_def add_def set_add_def)

lemma queue_inv_destroy: "queue_inv (destroy_q qu)"
  by (simp add: queue_inv_def destroy_q_def)

lemma take_q_unique:
  assumes "queue_inv qu" and "opt_unique qu"
  shows "take_q n qu = (take (nat n) (uniqueItems qu), qu\<lparr>uniqueItems := drop (nat n) (uniqueItems qu)\<rparr>)"
proof -
  let ?c = "if n > int (size_q qu) then int (size_q qu) else n"
  have d: "distinct (uniqueItems qu)" using assms(1) by (simp add: queue_inv_def)
  have t: "take (nat ?c) (uniqueItems qu) = take (nat n) (uniqueItems qu)"
    and dr: "drop (nat ?c) (uniqueItems qu) = drop (nat n) (uniqueItems qu)"
    using assms(2) by (simp_all add: size_q_def)
  show ?thesis
    using assms(2) t dr by (simp add: take_q_def Let_def take_loop_distinct [OF d])
qed

lemma take_q_plain:
  assumes "\<not> opt_unique qu"
  shows "take_q n qu = (take (nat n) (items qu), qu\<lparr>items := drop (nat n) (items qu)\<rparr>)"
proof -
  let ?c = "if n > int (size_q qu) then int (size_q qu) else n"
  have t: "take (nat ?c) (items qu) = take (nat n) (items qu)"
    and dr: "drop (nat ?c) (items qu) = drop (nat n) (items qu)"
    using assms by (simp_all add: size_q_def)
  show ?thesis
    using assms t dr by (simp add: take_q_def Let_def)
qed

lemma take_q_contents:
  assumes "queue_inv qu"
  shows "fst (take_q n qu) = take (nat n) (contents qu)"
    and "contents (snd (take_q n qu)) = drop (nat n) (contents qu)"
    and "queue_inv (snd (take_q n qu))"
    and "opt_unique (snd (take_q n qu)) = opt_unique qu"
  using assms take_q_unique [OF assms, of n] take_q_plain [of qu n]
  by (cases "opt_unique qu"; simp add: contents_def queue_inv_def)+

lemma size_q_contents: "size_q qu = length (contents qu)"
  by (simp add: size_q_def contents_def)

lemma add_contents:
  "contents (add x qu) = (if opt_unique qu \<and> x \<in> set (contents qu) then contents qu else contents qu @ [x])"
  by (simp add: add_def contents_def set_add_def)

lemma add_present: "opt_unique qu \<Longrightarrow> x \<in> set (contents qu) \<Longrightarrow> add x qu = qu"
  by (simp add: add_def contents_def set_add_def)

lemma scenarioD_eq: "scenarioD = \<lparr>opt_unique = True, items = [], uniqueItems = [''a'', ''b'']\<rparr>"
  by (simp add: scenarioD_def add_def createQueue_def set_add_def)

text \<open>
  C8. \<open>take(n)\<close> removes and returns the first \<open>n\<close> items in insertion order, \<open>n\<close>
  clamped to the size; \<open>add\<close> appends, except that in unique mode adding a value the
  queue holds changes nothing; in scenario D the size is 2 and \<open>take(2)\<close> returns
  \<open>['a', 'b']\<close>.
\<close>

theorem queue_fifo_unique:
  assumes "queue_inv qu"
  shows "fst (take_q n qu) = take (nat n) (contents qu)
       \<and> length (fst (take_q n qu)) = min (nat n) (size_q qu)
       \<and> contents (snd (take_q n qu)) = drop (nat n) (contents qu)
       \<and> queue_inv (snd (take_q n qu))
       \<and> contents (add x qu) =
           (if opt_unique qu \<and> x \<in> set (contents qu) then contents qu else contents qu @ [x])
       \<and> (opt_unique qu \<and> x \<in> set (contents qu) \<longrightarrow> add x qu = qu)
       \<and> queue_inv (add x qu)
       \<and> queue_inv scenarioD \<and> size_q scenarioD = 2
       \<and> fst (take_q 2 scenarioD) = [''a'', ''b'']"
proof -
  have D: "queue_inv scenarioD" by (simp add: scenarioD_eq queue_inv_def)
  have "fst (take_q 2 scenarioD) = [''a'', ''b'']"
    using take_q_contents(1) [OF D, of 2] by (simp add: scenarioD_eq contents_def)
  moreover have "size_q scenarioD = 2" by (simp add: scenarioD_eq size_q_def)
  ultimately show ?thesis
    using take_q_contents [OF assms, of n] add_contents [of x qu] add_present [of qu x]
      queue_inv_add [OF assms, of x] D
    by (simp add: size_q_contents min.commute)
qed

theorem queue_fifo_unique_witness:
  "queue_inv scenarioD
   \<and> opt_unique scenarioD \<and> ''a'' \<in> set (contents scenarioD)
   \<and> add ''a'' scenarioD = scenarioD
   \<and> fst (take_q 1 scenarioD) = [''a'']
   \<and> contents (snd (take_q 1 scenarioD)) = [''b'']"
proof -
  have D: "queue_inv scenarioD" by (simp add: scenarioD_eq queue_inv_def)
  show ?thesis
    using queue_fifo_unique [OF D, of 1 "''a''"] D
    by (simp add: scenarioD_eq contents_def)
qed

section \<open>Properties of the idle queue scheduler\<close>

lemma sched_next_stuck: "cancel s \<noteq> None \<Longrightarrow> sched_next s = s"
  by (simp add: sched_next_def)

lemma stuck_step: "stuck s \<Longrightarrow> stuck (sched_step e s) \<and> hook_calls (sched_step e s) = hook_calls s"
proof (cases e)
  case (FireDrain c)
  assume st: "stuck s"
  have "map_of (pending s) c \<noteq> Some DrainTask"
  proof
    assume "map_of (pending s) c = Some DrainTask"
    then have "(c, DrainTask) \<in> set (pending s)" by (rule map_of_SomeD)
    with st show False by (auto simp: stuck_def list_all_iff)
  qed
  then show ?thesis using st FireDrain
    by (simp add: fire_drain_def split: option.splits task.splits)
next
  case (Enqueue x)
  assume "stuck s"
  then show ?thesis using Enqueue by (simp add: stuck_def enqueue_def sched_next_def)
next
  case (SetOnTake h)
  assume "stuck s"
  then show ?thesis using SetOnTake by (simp add: stuck_def setOnTake_def)
next
  case Destroy
  assume "stuck s"
  then show ?thesis using Destroy
    by (auto simp: stuck_def destroy_def cancel_handle_def Let_def list_all_iff)
next
  case (Settle i ok)
  assume "stuck s"
  then show ?thesis using Settle by (simp add: stuck_def settle_def sched_next_def Let_def)
qed

lemma stuck_run: "stuck s \<Longrightarrow> stuck (run_sched es s) \<and> hook_calls (run_sched es s) = hook_calls s"
  unfolding run_sched_def
proof (induction es arbitrary: s)
  case Nil
  then show ?case by simp
next
  case (Cons e es)
  from stuck_step [OF Cons.prems, of e] Cons.IH [of "sched_step e s"]
  show ?case by simp
qed

lemmas sched_defs = createScheduler_def enqueue_def sched_next_def add_def size_q_def
  createQueue_def nextTime_def book_def fire_drain_def drain_def process_def
  cancel_handle_def take_q_def batch_def settle_def host.extend_def scheduler.fields_def
  host0_def Let_def

lemma scenarioC_eq:
  "scenarioC = \<lparr>has_idle = True, has_raf = True, pending = [((Frame, 0), DrainTask)],
     next_id = 1, opt_useIdle = False, opt_batchSize = Some 2, opt_block = True,
     cancel = Some (Frame, 0), onTake = Some (AsyncHook 0),
     q = \<lparr>opt_unique = False, items = [''a'', ''b'', ''c'', ''d'', ''e''], uniqueItems = []\<rparr>,
     hook_calls = [], awaiting = []\<rparr>"
  by (simp add: scenarioC_def sched_defs)

lemma scenarioC_fired:
  "fire_drain (Frame, 0) scenarioC = \<lparr>has_idle = True, has_raf = True, pending = [],
     next_id = 1, opt_useIdle = False, opt_batchSize = Some 2, opt_block = True,
     cancel = Some (Frame, 0), onTake = Some (AsyncHook 0),
     q = \<lparr>opt_unique = False, items = [''c'', ''d'', ''e''], uniqueItems = []\<rparr>,
     hook_calls = [(AsyncHook 0, [''a'', ''b''])], awaiting = [0]\<rparr>"
  by (simp add: scenarioC_eq sched_defs)

lemma scenarioC_settled:
  "settle 0 True (fire_drain (Frame, 0) scenarioC) = \<lparr>has_idle = True, has_raf = True, pending = [],
     next_id = 1, opt_useIdle = False, opt_batchSize = Some 2, opt_block = True,
     cancel = Some (Frame, 0), onTake = Some (AsyncHook 0),
     q = \<lparr>opt_unique = False, items = [''c'', ''d'', ''e''], uniqueItems = []\<rparr>,
     hook_calls = [(AsyncHook 0, [''a'', ''b''])], awaiting = []\<rparr>"
  by (simp add: scenarioC_fired settle_def sched_next_def size_q_def Let_def)

text \<open>
  C1. In scenario C the drain fires once and the hook receives \<open>['a', 'b']\<close>. Nothing
  resets \<open>_cancel\<close>, so when the promise of that invocation settles \<open>_next\<close> returns at
  its guard: no drain is booked, \<open>'c'\<close>, \<open>'d'\<close>, \<open>'e'\<close> stay in the queue, and no later
  event makes the scheduler call the hook again.
\<close>

theorem scenarioC_only_first_batch:
  "hook_calls (fire_drain (Frame, 0) scenarioC) = [(AsyncHook 0, [''a'', ''b''])]
   \<and> awaiting (fire_drain (Frame, 0) scenarioC) = [0]
   \<and> cancel (settle 0 True (fire_drain (Frame, 0) scenarioC)) = Some (Frame, 0)
   \<and> pending (settle 0 True (fire_drain (Frame, 0) scenarioC)) = []
   \<and> contents (q (settle 0 True (fire_drain (Frame, 0) scenarioC))) = [''c'', ''d'', ''e'']
   \<and> hook_calls (run_sched es (settle 0 True (fire_drain (Frame, 0) scenarioC)))
       = [(AsyncHook 0, [''a'', ''b''])]"
proof -
  let ?t = "settle 0 True (fire_drain (Frame, 0) scenarioC)"
  have a: "hook_calls (fire_drain (Frame, 0) scenarioC) = [(AsyncHook 0, [''a'', ''b''])]"
    "awaiting (fire_drain (Frame, 0) scenarioC) = [0]"
    by (simp_all add: scenarioC_fired)
  have b: "cancel ?t = Some (Frame, 0)" "pending ?t = []"
    "contents (q ?t) = [''c'', ''d'', ''e'']"
    "hook_calls ?t = [(AsyncHook 0, [''a'', ''b''])]"
    by (simp_all add: scenarioC_settled contents_def)
  have "stuck ?t" by (simp add: scenarioC_settled stuck_def)
  from stuck_run [OF this, of es] have "hook_calls (run_sched es ?t) = hook_calls ?t" ..
  with a b show ?thesis by simp
qed

lemma drain_tracked_next: "drain_tracked s \<Longrightarrow> drain_tracked (sched_next s)"
  by (auto simp: drain_tracked_def sched_next_def nextTime_def book_def list_all_iff)

lemma drain_tracked_cong:
  "pending t = pending s \<Longrightarrow> cancel t = cancel s \<Longrightarrow> drain_tracked t = drain_tracked s"
  by (simp add: drain_tracked_def)

lemma drain_tracked_cancel: "drain_tracked s \<Longrightarrow> drain_tracked (cancel_handle c s)"
  by (auto simp: drain_tracked_def cancel_handle_def list_all_iff)

lemma drain_tracked_process: "drain_tracked s \<Longrightarrow> drain_tracked (process s)"
proof -
  assume a: "drain_tracked s"
  obtain its q' where t: "take_q (batch s) (q s) = (its, q')" by (cases "take_q (batch s) (q s)")
  have 1: "drain_tracked (s\<lparr>q := q'\<rparr>)" using a by (simp add: drain_tracked_def)
  have 2: "\<And>h. drain_tracked (s\<lparr>q := q', hook_calls := h\<rparr>)" using a by (simp add: drain_tracked_def)
  have 3: "\<And>h w. drain_tracked (s\<lparr>q := q', hook_calls := h, awaiting := w\<rparr>)"
    using a by (simp add: drain_tracked_def)
  show ?thesis
    using t 1 2 3 drain_tracked_next
    by (auto simp: process_def Let_def split: option.splits)
qed

lemma drain_tracked_step: "drain_tracked s \<Longrightarrow> drain_tracked (sched_step e s)"
proof (cases e)
  case (Enqueue x)
  assume "drain_tracked s"
  then have "drain_tracked (s\<lparr>q := add x (q s)\<rparr>)" by (simp add: drain_tracked_def)
  then show ?thesis using Enqueue by (simp add: enqueue_def drain_tracked_next)
next
  case (SetOnTake h)
  assume "drain_tracked s"
  then show ?thesis using SetOnTake by (simp add: setOnTake_def drain_tracked_def)
next
  case Destroy
  assume "drain_tracked s"
  then have "drain_tracked (s\<lparr>q := destroy_q (q s), onTake := None\<rparr>)"
    by (simp add: drain_tracked_def)
  then show ?thesis using Destroy
    by (auto simp: destroy_def Let_def drain_tracked_cancel split: option.splits)
next
  case (FireDrain c)
  assume "drain_tracked s"
  then have "drain_tracked (process (cancel_handle c s))"
    by (intro drain_tracked_process drain_tracked_cancel)
  then have "drain_tracked (drain (cancel_handle c s))"
    by (simp add: drain_def Let_def drain_tracked_next)
  then show ?thesis using FireDrain \<open>drain_tracked s\<close>
    by (simp add: fire_drain_def split: option.splits task.splits)
next
  case (Settle i ok)
  assume "drain_tracked s"
  then have "drain_tracked (s\<lparr>awaiting := removeAll i (awaiting s)\<rparr>)"
    by (simp add: drain_tracked_def)
  then show ?thesis using Settle \<open>drain_tracked s\<close>
    by (simp add: settle_def Let_def drain_tracked_next)
qed

lemma drain_tracked_run: "drain_tracked s \<Longrightarrow> drain_tracked (run_sched es s)"
  unfolding run_sched_def
  by (induction es arbitrary: s) (simp_all add: drain_tracked_step)

lemma drain_tracked_create:
  "list_all (\<lambda>e. snd e \<noteq> DrainTask) (pending h) \<Longrightarrow>
     drain_tracked (createScheduler useIdle batchSize block unique hk h)"
  by (auto simp: drain_tracked_def createScheduler_def host.extend_def scheduler.fields_def
        list_all_iff)

section \<open>Properties of the state store\<close>

subsection \<open>Subscriptions\<close>

lemma marks_Nil [simp]: "marks subs [] = []"
  by (simp add: marks_def map_filter_simps)

lemma marks_Cons:
  "marks subs (c # cs) =
     (case find (\<lambda>ret. subscriber ret = c) subs of None \<Rightarrow> [] | Some r \<Rightarrow> [r]) @ marks subs cs"
  by (simp add: marks_def map_filter_simps split: option.splits)

lemma marks_append: "marks subs (cs @ ds) = marks subs cs @ marks subs ds"
  by (simp add: marks_def map_filter_def)

lemma find_SomeD: "find P xs = Some x \<Longrightarrow> P x \<and> x \<in> set xs"
  by (auto simp: find_Some_iff)

lemma marks_subset: "set (marks subs cs) \<subseteq> set subs"
proof (induction cs)
  case Nil
  then show ?case by simp
next
  case (Cons c cs)
  then show ?case
    by (cases "find (\<lambda>ret. subscriber ret = c) subs") (auto simp: marks_Cons dest: find_SomeD)
qed

lemma marks_subscriber: "r \<in> set (marks subs cs) \<Longrightarrow> subscriber r \<in> set cs"
proof (induction cs)
  case Nil
  then show ?case by simp
next
  case (Cons c cs)
  then show ?case
    by (cases "find (\<lambda>ret. subscriber ret = c) subs") (auto simp: marks_Cons dest: find_SomeD)
qed

lemma marks_found:
  "c \<in> set cs \<Longrightarrow> find (\<lambda>ret. subscriber ret = c) subs = Some r \<Longrightarrow> r \<in> set (marks subs cs)"
  by (induction cs) (auto simp: marks_Cons split: option.splits)

lemma unsubscribe_eq:
  "unsubscribe c s = s\<lparr>removedSubscribers := removedSubscribers s @ marks (subscribers s) [c]\<rparr>"
  by (simp add: unsubscribe_def marks_Cons split: option.splits)

lemma unsubscribe_all_eq:
  "foldl (\<lambda>s' c. unsubscribe c s') s cs =
     s\<lparr>removedSubscribers := removedSubscribers s @ marks (subscribers s) cs\<rparr>"
proof (induction cs arbitrary: s)
  case Nil
  then show ?case by simp
next
  case (Cons c cs)
  have "marks (subscribers s) (c # cs) = marks (subscribers s) [c] @ marks (subscribers s) cs"
    using marks_append [of "subscribers s" "[c]" cs] by simp
  moreover have "subscribers (unsubscribe c s) = subscribers s"
    "removedSubscribers (unsubscribe c s) = removedSubscribers s @ marks (subscribers s) [c]"
    by (simp_all add: unsubscribe_eq)
  ultimately have "foldl (\<lambda>s' c. unsubscribe c s') (unsubscribe c s) cs =
      (unsubscribe c s)\<lparr>removedSubscribers :=
         removedSubscribers s @ marks (subscribers s) (c # cs)\<rparr>"
    by (simp add: Cons.IH)
  then show ?case by (simp add: unsubscribe_eq)
qed

lemma find_subscriber_None:
  "(find (\<lambda>ret. subscriber ret = cb) subs = None) = (cb \<notin> subscriber ` set subs)"
  by (auto simp: find_None_iff)

lemma subscribe_present:
  "cb \<in> subscriber ` set (subscribers s) \<Longrightarrow> subscribe cb ks s = s"
  using find_subscriber_None [of cb "subscribers s"] by (simp add: subscribe_def)

lemma subscribe_registers: "cb \<in> subscriber ` set (subscribers (subscribe cb ks s))"
  by (cases "cb \<in> subscriber ` set (subscribers s)")
     (simp_all add: subscribe_present, simp add: subscribe_def find_subscriber_None)

subsection \<open>One invocation\<close>

lemma invoke_user:
  "invoke E (UserCb n) st s =
     s\<lparr>calls := calls s @ [(UserCb n, fst st)],
       removedSubscribers := removedSubscribers s @ marks (subscribers s) (unsubs E n)\<rparr>"
  by (simp add: invoke_def unsubscribe_all_eq Let_def)

lemma invoke_wrapper:
  "invoke E (WrapperCb p) st s =
     (resolve p st (clearTimeout p (s\<lparr>calls := calls s @ [(WrapperCb p, fst st)]\<rparr>)))
       \<lparr>removedSubscribers := removedSubscribers s @ marks (subscribers s) [WrapperCb p]\<rparr>"
  by (simp add: invoke_def unsubscribe_eq resolve_def clearTimeout_def cancel_handle_def Let_def)

lemmas wrapper_defs = resolve_def clearTimeout_def cancel_handle_def

lemma invoke_fields [simp]:
  "subscribers (invoke E cb st s) = subscribers s"
  "state (invoke E cb st s) = state s"
  "stateChanges (invoke E cb st s) = stateChanges s"
  "dirty (invoke E cb st s) = dirty s"
  "immediateFlush (invoke E cb st s) = immediateFlush s"
  "next_rid (invoke E cb st s) = next_rid s"
  "next_obj (invoke E cb st s) = next_obj s"
  "next_id (invoke E cb st s) = next_id s"
  "length (promises (invoke E cb st s)) = length (promises s)"
  "calls (invoke E cb st s) = calls s @ [(cb, fst st)]"
  "removedSubscribers (invoke E cb st s) =
     removedSubscribers s @ marks (subscribers s) (targets E cb)"
  by (cases cb; simp add: invoke_user invoke_wrapper wrapper_defs targets_def)+

lemma invoke_pending: "set (pending (invoke E cb st s)) \<subseteq> set (pending s)"
  by (cases cb) (auto simp: invoke_user invoke_wrapper wrapper_defs)


subsection \<open>The notification pass\<close>

lemma notify_one_eq:
  "notify_one E st prev s ret = (if selected E prev st ret then invoke E (subscriber ret) st s else s)"
  by (simp add: notify_one_def selected_def split: option.splits)

lemma pass_preserves:
  assumes "\<And>s' cb. f (invoke E cb st s') = f s'"
  shows "f (foldl (notify_one E st prev) s l) = f s"
  by (induction l arbitrary: s) (simp_all add: notify_one_eq assms)

lemma pass_subscribers [simp]:
  "subscribers (foldl (notify_one E st prev) s l) = subscribers s"
  by (rule pass_preserves) simp

lemma pass_calls:
  "calls (foldl (notify_one E st prev) s l) =
     calls s @ map (\<lambda>ret. (subscriber ret, fst st)) (filter (selected E prev st) l)"
  by (induction l arbitrary: s) (simp_all add: notify_one_eq)

lemma pass_removed:
  "removedSubscribers (foldl (notify_one E st prev) s l) =
     removedSubscribers s @
     marks (subscribers s) (concat (map (\<lambda>ret. targets E (subscriber ret)) (filter (selected E prev st) l)))"
  by (induction l arbitrary: s) (simp_all add: notify_one_eq marks_append)

lemma pass_pending: "set (pending (foldl (notify_one E st prev) s l)) \<subseteq> set (pending s)"
proof (induction l arbitrary: s)
  case Nil
  then show ?case by simp
next
  case (Cons r l)
  show ?case using Cons.IH [of "notify_one E st prev s r"] invoke_pending [of E "subscriber r" st s]
    by (auto simp: notify_one_eq split: if_splits)
qed


lemma live_subset: "set (live s) \<subseteq> set (subscribers s)"
  by (auto simp: live_def)

lemma live_distinct:
  "distinct (map subscriber (subscribers s)) \<Longrightarrow> distinct (map subscriber (live s))"
  by (simp add: live_def distinct_map_filter)

lemma prune_fields [simp]:
  "subscribers (prune s) = live s"
  "removedSubscribers (prune s) = []"
  "state (prune s) = state s"
  "stateChanges (prune s) = stateChanges s"
  "dirty (prune s) = dirty s"
  "immediateFlush (prune s) = immediateFlush s"
  "next_rid (prune s) = next_rid s"
  "next_obj (prune s) = next_obj s"
  "next_id (prune s) = next_id s"
  "promises (prune s) = promises s"
  "calls (prune s) = calls s"
  "pending (prune s) = pending s"
  by (simp_all add: prune_def live_def)

lemma notify_fields [simp]:
  "subscribers (notify E st prev s) = live s"
  "state (notify E st prev s) = state s"
  "stateChanges (notify E st prev s) = stateChanges s"
  "dirty (notify E st prev s) = dirty s"
  "immediateFlush (notify E st prev s) = immediateFlush s"
  "next_rid (notify E st prev s) = next_rid s"
  "next_obj (notify E st prev s) = next_obj s"
  "next_id (notify E st prev s) = next_id s"
  "length (promises (notify E st prev s)) = length (promises s)"
  unfolding notify_def
  by (subst pass_preserves; simp)+

lemma notify_calls:
  "calls (notify E st prev s) =
     calls s @ map (\<lambda>ret. (subscriber ret, fst st)) (filter (selected E prev st) (live s))"
  by (simp add: notify_def pass_calls)

lemma notify_removed:
  "removedSubscribers (notify E st prev s) =
     marks (live s) (concat (map (\<lambda>ret. targets E (subscriber ret)) (filter (selected E prev st) (live s))))"
  by (simp add: notify_def pass_removed)

lemma notify_pending: "set (pending (notify E st prev s)) \<subseteq> set (pending s)"
  using pass_pending [of E st prev "prune s" "live s"] by (simp add: notify_def)


subsection \<open>The flush\<close>

lemma assign_merged:
  "assign (Map.empty # snd (state s) # stateChanges s) = merged s"
  "stateChanges s = [] \<Longrightarrow> assign [snd (state s)] = merged s"
  by (simp_all add: assign_def merged_def)

lemma live_cong [simp]:
  "live (s\<lparr>state := a\<rparr>) = live s"
  "live (s\<lparr>dirty := b\<rparr>) = live s"
  "live (s\<lparr>stateChanges := c\<rparr>) = live s"
  "live (s\<lparr>next_obj := d\<rparr>) = live s"
  "live (s\<lparr>pending := e\<rparr>) = live s"
  by (simp_all add: live_def)

lemma tick_eq:
  "tick E s =
     notify E (next_obj s, merged s) (state s)
       (s\<lparr>dirty := False, stateChanges := [], next_obj := Suc (next_obj s),
          state := (next_obj s, merged s)\<rparr>)"
  by (cases s) (simp add: tick_def flush_def Let_def assign_def merged_def)

lemma tick_fields [simp]:
  "subscribers (tick E s) = live s"
  "state (tick E s) = (next_obj s, merged s)"
  "stateChanges (tick E s) = []"
  "dirty (tick E s) = False"
  "immediateFlush (tick E s) = immediateFlush s"
  "next_rid (tick E s) = next_rid s"
  "next_obj (tick E s) = Suc (next_obj s)"
  "next_id (tick E s) = next_id s"
  "length (promises (tick E s)) = length (promises s)"
  by (simp_all add: tick_eq)

lemma flush_calls_eq:
  "flush_calls E s =
     map (\<lambda>ret. (subscriber ret, next_obj s))
       (filter (selected E (state s) (next_obj s, merged s)) (live s))"
  by (simp add: flush_calls_def tick_eq notify_calls)

lemma flush_calls_live: "fst ` set (flush_calls E s) \<subseteq> subscriber ` set (subscribers s)"
  using live_subset [of s] by (auto simp: flush_calls_eq)


lemma tick_removed:
  "removedSubscribers (tick E s) =
     marks (live s) (concat (map (\<lambda>c. targets E (fst c)) (flush_calls E s)))"
  by (simp add: flush_calls_eq tick_eq notify_removed comp_def)

lemma tick_pending: "set (pending (tick E s)) \<subseteq> set (pending s)"
  using notify_pending [of E "(next_obj s, merged s)" "state s"
      "s\<lparr>dirty := False, stateChanges := [], next_obj := Suc (next_obj s),
         state := (next_obj s, merged s)\<rparr>"]
  by (simp add: tick_eq)


subsection \<open>The invariant\<close>

lemma wf_dirty_False: "wf s \<Longrightarrow> wf (s\<lparr>dirty := False\<rparr>)"
  by (simp add: wf_def)

lemma wf_tick:
  assumes "wf (s\<lparr>dirty := False\<rparr>)"
  shows "wf (tick E s)"
proof -
  from assms have d: "distinct (map subscriber (subscribers s))"
    and r: "\<forall>ret \<in> set (subscribers s). rid ret < next_rid s"
    and b: "\<forall>ret \<in> set (subscribers s). below_promises (length (promises s)) (subscriber ret)"
    and p: "\<forall>e \<in> set (pending s). snd (fst e) < next_id s"
    by (simp_all add: wf_def list_all_iff)
  have m: "set (removedSubscribers (tick E s)) \<subseteq> set (subscribers s)"
    using marks_subset [of "live s"] live_subset [of s] by (auto simp: tick_removed)
  show ?thesis
    unfolding wf_def list_all_iff
    using live_distinct [OF d] r b p m live_subset [of s] tick_pending [of E s]
    by auto
qed

lemma wf_subscribe:
  assumes "wf s" and "below_promises (length (promises s)) cb"
  shows "wf (subscribe cb ks s)"
proof (cases "cb \<in> subscriber ` set (subscribers s)")
  case True
  then show ?thesis using assms by (simp add: subscribe_present)
next
  case False
  then have "find (\<lambda>ret. subscriber ret = cb) (subscribers s) = None"
    by (simp add: find_subscriber_None)
  then show ?thesis using assms False
    by (auto simp: subscribe_def wf_def list_all_iff)
qed

lemma wf_unsubscribe:
  assumes "wf s"
  shows "wf (unsubscribe cb s)"
proof -
  have "set (marks (subscribers s) [cb]) \<subseteq> set (subscribers s)" by (rule marks_subset)
  then show ?thesis using assms
    by (auto simp: unsubscribe_eq wf_def list_all_iff)
qed

lemma wf_markDirty:
  assumes "wf s"
  shows "wf (markDirty E s)"
proof (cases "dirty s")
  case True
  then show ?thesis using assms by (simp add: markDirty_def)
next
  case False
  show ?thesis
  proof (cases "immediateFlush s")
    case True
    have "wf (s\<lparr>dirty := True, dirty := False\<rparr>)" using assms by (simp add: wf_dirty_False)
    then have "wf (tick E (s\<lparr>dirty := True\<rparr>))" by (rule wf_tick)
    then show ?thesis using False True by (simp add: markDirty_def)
  next
    case f: False
    show ?thesis using assms False f
      by (auto simp: markDirty_def nextTime_def book_def wf_def list_all_iff
            Let_def)
  qed
qed

lemma wf_push: "wf s \<Longrightarrow> wf (s\<lparr>stateChanges := c\<rparr>)"
  by (simp add: wf_def)

lemma wrapper_fresh:
  assumes "wf s"
  shows "WrapperCb (length (promises s)) \<notin> subscriber ` set (subscribers s)"
proof
  assume "WrapperCb (length (promises s)) \<in> subscriber ` set (subscribers s)"
  then obtain ret where "ret \<in> set (subscribers s)" "subscriber ret = WrapperCb (length (promises s))"
    by auto
  with assms show False by (auto simp: wf_def list_all_iff)
qed

lemma subscribeWrapper_eq:
  assumes "wf s"
  shows "subscribeWrapper t s =
     (length (promises s),
      s\<lparr>subscribers := subscribers s @
           [\<lparr>rid = next_rid s, subscriber = WrapperCb (length (promises s)), keys = None\<rparr>],
        next_rid := Suc (next_rid s),
        pending := pending s @ [((Timer t, next_id s), RejectTask (length (promises s)))],
        next_id := Suc (next_id s),
        promises := promises s @ [\<lparr>settled = Pending, timer = (Timer t, next_id s)\<rparr>]\<rparr>)"
  using wrapper_fresh [OF assms]
  by (simp add: subscribeWrapper_def subscribe_def find_subscriber_None book_def Let_def)

lemma below_promises_mono: "below_promises n cb \<Longrightarrow> n \<le> m \<Longrightarrow> below_promises m cb"
  by (cases cb) simp_all

lemma wf_subscribeWrapper:
  assumes "wf s"
  shows "wf (snd (subscribeWrapper t s))"
  using assms wrapper_fresh [OF assms]
  by (auto simp: subscribeWrapper_eq [OF assms] wf_def list_all_iff
        intro: below_promises_mono [where m = "Suc (length (promises s))"])

lemma wf_setState:
  assumes "wf s" and "case sub of None \<Rightarrow> True | Some cb \<Rightarrow> below_promises (length (promises s)) cb"
  shows "wf (snd (setState E patch sub s))"
proof -
  let ?s1 = "markDirty E (s\<lparr>stateChanges := stateChanges s @ [patch]\<rparr>)"
  have w: "wf ?s1" using assms(1) by (intro wf_markDirty wf_push)
  have len: "length (promises ?s1) = length (promises s)"
    by (simp add: markDirty_def nextTime_def book_def Let_def)
  show ?thesis
  proof (cases sub)
    case None
    then show ?thesis using wf_subscribeWrapper [OF w, of 200]
      by (simp add: setState_def Let_def case_prod_beta)
  next
    case (Some cb)
    with assms(2) len have "below_promises (length (promises ?s1)) cb" by simp
    from wf_subscribe [OF w this] Some show ?thesis by (simp add: setState_def Let_def)
  qed
qed

lemma wf_dispose: "wf s \<Longrightarrow> wf (dispose s)"
  by (simp add: dispose_def wf_def)

lemma wf_cancel_handle: "wf s \<Longrightarrow> wf (cancel_handle c s)"
  by (auto simp: cancel_handle_def wf_def list_all_iff)

lemma wf_fire:
  assumes "wf s"
  shows "wf (fire E c s)"
proof (cases "map_of (pending s) c")
  case None
  then show ?thesis using assms by (simp add: fire_def)
next
  case (Some t)
  show ?thesis
  proof (cases t)
    case FlushTask
    have "wf ((cancel_handle c s)\<lparr>dirty := False\<rparr>)"
      using assms by (intro wf_dirty_False wf_cancel_handle)
    then have "wf (tick E (cancel_handle c s))" by (rule wf_tick)
    then show ?thesis using Some FlushTask by (simp add: fire_def)
  next
    case (RejectTask p)
    have "wf (reject p ''state not update'' (cancel_handle c s))"
      using wf_cancel_handle [OF assms, of c]
      by (auto simp: reject_def wf_def list_all_iff)
    then show ?thesis using Some RejectTask by (simp add: fire_def)
  next
    case DrainTask
    then show ?thesis using Some assms by (simp add: fire_def)
  qed
qed

lemma wf_createState:
  assumes "list_all (\<lambda>e. snd (fst e) < next_id h) (pending h)"
  shows "wf (createState E init immediate h)"
proof -
  have "wf (host.extend h (store.fields init [] False immediate [] [] 0 (Suc (fst init)) [] []))"
    using assms by (simp add: wf_def host.extend_def store.fields_def)
  then show ?thesis unfolding createState_def by (rule wf_markDirty)
qed

lemma wf_step: "wf s \<Longrightarrow> wf (store_step E e s)"
proof (cases e)
  case (DoSetState patch sub)
  assume "wf s"
  then show ?thesis using DoSetState
    by (cases sub) (simp_all add: wf_setState)
qed (simp_all add: wf_subscribe wf_unsubscribe wf_dispose wf_fire)

lemma wf_run: "wf s \<Longrightarrow> wf (run_store E es s)"
  unfolding run_store_def
  by (induction es arbitrary: s) (simp_all add: wf_step)

lemma wf_reachable:
  "list_all (\<lambda>e. snd (fst e) < next_id h) (pending h) \<Longrightarrow>
     wf (run_store E es (createState E init immediate h))"
  by (intro wf_run wf_createState)

subsection \<open>Merging\<close>

lemma merged_lookup:
  "foldl (++) m ps k =
     (case find (\<lambda>p. p k \<noteq> None) (rev ps) of None \<Rightarrow> m k | Some p \<Rightarrow> p k)"
  by (induction ps rule: rev_induct) (auto simp: map_add_def split: option.splits)

lemma setState_deferred:
  assumes "\<not> immediateFlush s"
  shows "stateChanges (snd (setState E p sub s)) = stateChanges s @ [p]"
    and "state (snd (setState E p sub s)) = state s"
    and "\<not> immediateFlush (snd (setState E p sub s))"
  using assms
  by (cases sub; simp add: setState_def markDirty_def nextTime_def book_def subscribe_def
        subscribeWrapper_def Let_def case_prod_beta)+

lemma queue_all_deferred:
  assumes "\<not> immediateFlush s"
  shows "stateChanges (queue_all E ps s) = stateChanges s @ map fst ps
       \<and> state (queue_all E ps s) = state s \<and> \<not> immediateFlush (queue_all E ps s)"
  using assms unfolding queue_all_def
proof (induction ps arbitrary: s)
  case Nil
  then show ?case by simp
next
  case (Cons pc ps)
  from Cons.IH [of "snd (setState E (fst pc) (snd pc) s)"] setState_deferred [OF Cons.prems]
  show ?case by simp
qed

text \<open>
  C2. The property map of the state after a flush is the property map before it
  overwritten by the queued patches, first to last; at each key the last patch that has
  the key wins, and a key no patch has keeps its value. With deferred flushing the
  patches of a sequence of \<open>setState\<close> calls are queued in call order, so the next flush
  merges exactly them, in that order.
\<close>

theorem flush_merges_in_order:
  "snd (state (tick E s)) = foldl (++) (snd (state s)) (stateChanges s)
   \<and> snd (state (tick E s)) k =
       (case find (\<lambda>p. p k \<noteq> None) (rev (stateChanges s)) of
          None \<Rightarrow> snd (state s) k | Some p \<Rightarrow> p k)
   \<and> (\<not> immediateFlush s \<longrightarrow>
        stateChanges (queue_all E ps s) = stateChanges s @ map fst ps
        \<and> snd (state (tick E (queue_all E ps s))) =
            foldl (++) (snd (state s)) (stateChanges s @ map fst ps))"
  using queue_all_deferred [of s E ps]
  by (simp add: merged_def merged_lookup)

subsection \<open>Fresh identity\<close>

text \<open>
  C7. After a flush the current state is another object than before: the flush gives it
  an identity that was not in use, also when no patch is queued, in which case the
  properties are the same. This holds for the flush the host fires as well.
\<close>

theorem flush_fresh_identity:
  assumes "wf s"
  shows "fst (state (tick E s)) \<noteq> fst (state s)
       \<and> (stateChanges s = [] \<longrightarrow> snd (state (tick E s)) = snd (state s))
       \<and> (map_of (pending s) c = Some FlushTask \<longrightarrow> fst (state (fire E c s)) \<noteq> fst (state s))"
proof -
  from assms have "fst (state s) < next_obj s" by (simp add: wf_def)
  then show ?thesis
    by (simp add: merged_def fire_def cancel_handle_def)
qed

subsection \<open>Gating\<close>

lemma selected_single:
  "fst prev \<noteq> fst st \<Longrightarrow> keys ret = Some [k] \<Longrightarrow>
     selected E prev st ret = loose_neq E (snd prev k) (snd st k)"
  by (simp add: selected_def isStateChangedWithKeys_def)

lemma selected_no_keys: "keys ret = None \<Longrightarrow> selected E prev st ret"
  by (simp add: selected_def)

lemma flush_calls_member:
  assumes "distinct (map subscriber (subscribers s))" and "ret \<in> set (live s)"
  shows "(subscriber ret \<in> fst ` set (flush_calls E s)) =
           selected E (state s) (next_obj s, merged s) ret"
proof -
  have inj: "inj_on subscriber (set (live s))"
    using live_distinct [OF assms(1)] by (simp add: distinct_map)
  have "fst ` set (flush_calls E s) =
          subscriber ` {r \<in> set (live s). selected E (state s) (next_obj s, merged s) r}"
    by (auto simp: flush_calls_eq image_iff)
  then show ?thesis using inj assms(2) by (auto simp: inj_on_def)
qed

lemma subscribe_live:
  assumes "wf s" and "cb \<notin> subscriber ` set (subscribers s)"
  shows "\<lparr>rid = next_rid s, subscriber = cb, keys = Some (k # ks)\<rparr>
           \<in> set (live (subscribe cb (Some (k # ks)) s))"
    and "\<lparr>rid = next_rid s, subscriber = cb, keys = None\<rparr> \<in> set (live (subscribe cb None s))"
proof -
  from assms(1) have "\<forall>r \<in> set (removedSubscribers s). rid r < next_rid s"
    by (simp add: wf_def list_all_iff)
  then have "next_rid s \<notin> rid ` set (removedSubscribers s)" by auto
  then show "\<lparr>rid = next_rid s, subscriber = cb, keys = Some (k # ks)\<rparr>
           \<in> set (live (subscribe cb (Some (k # ks)) s))"
    and "\<lparr>rid = next_rid s, subscriber = cb, keys = None\<rparr> \<in> set (live (subscribe cb None s))"
    using assms(2) by (simp_all add: subscribe_def find_subscriber_None live_def)
qed

text \<open>
  Without a flush inside the flush: a subscription among those the pass iterates that
  has the keys \<open>[k]\<close> is invoked exactly when \<open>!=\<close> holds of the values at \<open>k\<close> before
  and after the flush, and one without keys is invoked in every flush.
\<close>

lemma plain_pass_gating:
  assumes "wf s" and "ret \<in> set (live s)"
  shows "(keys ret = Some [k] \<longrightarrow>
            (subscriber ret \<in> fst ` set (flush_calls E s)) =
              loose_neq E (snd (state s) k) (snd (state (tick E s)) k))
       \<and> (keys ret = None \<longrightarrow> subscriber ret \<in> fst ` set (flush_calls E s))
       \<and> (cb \<notin> subscriber ` set (subscribers s) \<longrightarrow>
            \<lparr>rid = next_rid s, subscriber = cb, keys = Some [k]\<rparr>
              \<in> set (live (subscribe cb (Some [k]) s))
            \<and> \<lparr>rid = next_rid s, subscriber = cb, keys = None\<rparr>
              \<in> set (live (subscribe cb None s)))"
proof -
  from assms(1) have d: "distinct (map subscriber (subscribers s))"
    and f: "fst (state s) \<noteq> fst (next_obj s, merged s)"
    by (simp_all add: wf_def)
  show ?thesis
    using flush_calls_member [OF d assms(2), of E]
      selected_single [OF f, where ret = ret and k = k and E = E]
      selected_no_keys [where ret = ret and E = E and prev = "state s" and st = "(next_obj s, merged s)"]
      subscribe_live(1) [OF assms(1), where cb = cb and k = k and ks = "[]"]
      subscribe_live(2) [OF assms(1), where cb = cb]
    by simp
qed

subsection \<open>Unsubscribing\<close>

lemma removed_not_live:
  assumes "distinct (map subscriber (subscribers s))"
    and "ret \<in> set (removedSubscribers s)" and "ret \<in> set (subscribers s)"
  shows "subscriber ret \<notin> subscriber ` set (live s)"
proof
  assume "subscriber ret \<in> subscriber ` set (live s)"
  then obtain r where r: "r \<in> set (live s)" "subscriber r = subscriber ret" by auto
  from assms(2) have ne: "removedSubscribers s \<noteq> []" by auto
  from r(1) live_subset have "r \<in> set (subscribers s)" by auto
  with assms(1,3) r(2) have "r = ret" by (auto simp: distinct_map inj_on_def)
  with r(1) ne assms(2) show False by (auto simp: live_def)
qed

lemma removed_not_called:
  assumes "distinct (map subscriber (subscribers s))"
    and "ret \<in> set (removedSubscribers s)" and "ret \<in> set (subscribers s)"
  shows "subscriber ret \<notin> fst ` set (flush_calls E s)"
    and "subscriber ret \<notin> subscriber ` set (subscribers (tick E s))"
  using removed_not_live [OF assms] by (auto simp: flush_calls_eq)

lemma selected_unsubs: "selected (E\<lparr>unsubs := u\<rparr>) prev st = selected E prev st"
  by (rule ext) (simp add: selected_def split: option.splits)

lemma flush_calls_unsubs: "flush_calls (E\<lparr>unsubs := u\<rparr>) s = flush_calls E s"
  by (simp add: flush_calls_eq selected_unsubs)

text \<open>
  Without a flush inside the flush: \<open>unsubscribe\<close> leaves the subscriber list as it is
  and appends the record it finds to the removal list; the records that the invoked
  callbacks unsubscribed are on the removal list after the flush, are not invoked by the
  next flush and are gone from the list after it.
\<close>

lemma plain_pass_unsubscribe:
  assumes "wf s"
  shows "flush_calls E s = flush_calls (E\<lparr>unsubs := (\<lambda>n. [])\<rparr>) s
       \<and> flush_calls E s =
           map (\<lambda>ret. (subscriber ret, next_obj s))
             (filter (selected E (state s) (next_obj s, merged s)) (live s))
       \<and> distinct (map fst (flush_calls E s))
       \<and> subscribers (tick E s) = live s
       \<and> subscribers (unsubscribe cb s) = subscribers s
       \<and> removedSubscribers (unsubscribe cb s) =
           removedSubscribers s @
           (case find (\<lambda>ret. subscriber ret = cb) (subscribers s) of
              None \<Rightarrow> [] | Some found \<Rightarrow> [found])
       \<and> removedSubscribers (tick E s) =
           marks (live s) (concat (map (\<lambda>c. targets E (fst c)) (flush_calls E s)))
       \<and> (\<forall>ret \<in> set (removedSubscribers (tick E s)).
            ret \<in> set (subscribers (tick E s))
            \<and> subscriber ret \<notin> fst ` set (flush_calls E ((tick E s)\<lparr>stateChanges := ps\<rparr>))
            \<and> subscriber ret \<notin>
                subscriber ` set (subscribers (tick E ((tick E s)\<lparr>stateChanges := ps\<rparr>))))"
proof -
  from assms have d: "distinct (map subscriber (subscribers s))" by (simp add: wf_def)
  have d': "distinct (map subscriber (subscribers (tick E s)))"
    using live_distinct [OF d] by simp
  have "distinct (map subscriber (filter (selected E (state s) (next_obj s, merged s)) (live s)))"
    using live_distinct [OF d] by (rule distinct_map_filter)
  then have dc: "distinct (map fst (flush_calls E s))"
    by (simp add: flush_calls_eq comp_def)
  have sub: "set (removedSubscribers (tick E s)) \<subseteq> set (subscribers (tick E s))"
    using marks_subset [of "live s"] by (simp add: tick_removed)
  let ?t = "(tick E s)\<lparr>stateChanges := ps\<rparr>"
  have dt: "distinct (map subscriber (subscribers ?t))" using d' by simp
  have nxt: "\<forall>ret \<in> set (removedSubscribers (tick E s)).
            ret \<in> set (subscribers (tick E s))
            \<and> subscriber ret \<notin> fst ` set (flush_calls E ?t)
            \<and> subscriber ret \<notin> subscriber ` set (subscribers (tick E ?t))"
  proof
    fix ret
    assume r: "ret \<in> set (removedSubscribers (tick E s))"
    with sub have m: "ret \<in> set (subscribers (tick E s))" by auto
    from r m have "ret \<in> set (removedSubscribers ?t)" "ret \<in> set (subscribers ?t)" by simp_all
    from removed_not_called [OF dt this, where E = E] m
    show "ret \<in> set (subscribers (tick E s))
            \<and> subscriber ret \<notin> fst ` set (flush_calls E ?t)
            \<and> subscriber ret \<notin> subscriber ` set (subscribers (tick E ?t))"
      by simp
  qed
  have un: "removedSubscribers (unsubscribe cb s) =
           removedSubscribers s @
           (case find (\<lambda>ret. subscriber ret = cb) (subscribers s) of
              None \<Rightarrow> [] | Some found \<Rightarrow> [found])"
    by (simp add: unsubscribe_eq marks_Cons)
  have c1: "flush_calls E s = flush_calls (E\<lparr>unsubs := (\<lambda>n. [])\<rparr>) s"
    by (simp add: flush_calls_unsubs)
  have c2: "subscribers (tick E s) = live s" "subscribers (unsubscribe cb s) = subscribers s"
    by (simp_all add: unsubscribe_eq)
  show ?thesis
    by (intro conjI) (rule c1 c2 dc un nxt flush_calls_eq tick_removed)+
qed

text \<open>
  C10. After \<open>subscribe(cb)\<close> and a call of the unsubscribe closure, a second
  \<open>subscribe(cb)\<close> changes nothing: the record of \<open>cb\<close> is found, and it is the one
  on the removal list. The next flush does not invoke \<open>cb\<close> and removes it, and the
  flush after that does not invoke it either.
\<close>

theorem resubscribe_after_unsubscribe:
  assumes "wf s"
  shows "subscribe cb ks' (unsubscribe cb (subscribe cb ks s)) = unsubscribe cb (subscribe cb ks s)
       \<and> (\<exists>found. find (\<lambda>ret. subscriber ret = cb) (subscribers (subscribe cb ks s)) = Some found
            \<and> removedSubscribers (unsubscribe cb (subscribe cb ks s)) =
                removedSubscribers (subscribe cb ks s) @ [found])
       \<and> cb \<notin> fst ` set (flush_calls E (subscribe cb ks' (unsubscribe cb (subscribe cb ks s))))
       \<and> cb \<notin> subscriber ` set (subscribers
                 (tick E (subscribe cb ks' (unsubscribe cb (subscribe cb ks s)))))
       \<and> cb \<notin> fst ` set (flush_calls E
                 (tick E (subscribe cb ks' (unsubscribe cb (subscribe cb ks s)))))"
proof -
  let ?s1 = "subscribe cb ks s"
  let ?s2 = "unsubscribe cb ?s1"
  have reg: "cb \<in> subscriber ` set (subscribers ?s1)" by (rule subscribe_registers)
  then obtain found where f: "find (\<lambda>ret. subscriber ret = cb) (subscribers ?s1) = Some found"
    using find_subscriber_None [of cb "subscribers ?s1"] by auto
  then have fs: "subscriber found = cb" "found \<in> set (subscribers ?s1)"
    by (auto dest: find_SomeD)
  have rem: "removedSubscribers ?s2 = removedSubscribers ?s1 @ [found]"
    and subs: "subscribers ?s2 = subscribers ?s1"
    using f by (simp_all add: unsubscribe_def)
  have noop: "subscribe cb ks' ?s2 = ?s2"
    using reg subs by (simp add: subscribe_present)
  have d: "distinct (map subscriber (subscribers ?s2))"
  proof (cases "cb \<in> subscriber ` set (subscribers s)")
    case True
    then show ?thesis using assms subs by (simp add: subscribe_present wf_def)
  next
    case False
    then show ?thesis using assms subs
      by (simp add: subscribe_def find_subscriber_None wf_def)
  qed
  have "found \<in> set (removedSubscribers ?s2)" "found \<in> set (subscribers ?s2)"
    using rem subs fs(2) by simp_all
  note n = removed_not_called [OF d this, where E = E]
  have "cb \<notin> fst ` set (flush_calls E (tick E ?s2))"
    using n(2) fs(1) flush_calls_live [of E "tick E ?s2"] by auto
  with n fs(1) f rem noop show ?thesis by simp
qed

subsection \<open>The scenarios, evaluated\<close>

lemmas store_defs = createState_def markDirty_def nextTime_def book_def host.extend_def
  store.fields_def host0_def setState_def subscribe_def subscribeWrapper_def Let_def

lemma store0_deferred:
  "store0 False =
     \<lparr>has_idle = True, has_raf = True, pending = [((Frame, 0), FlushTask)], next_id = 1,
      state = (0, [''count'' \<mapsto> PNum 0]), stateChanges = [], dirty = True,
      immediateFlush = False, subscribers = [], removedSubscribers = [], next_rid = 0,
      next_obj = 1, promises = [], calls = []\<rparr>"
  by (simp add: store0_def store_defs)




subsection \<open>The promise form of setState\<close>

lemma merged_cong [simp]:
  "merged (s\<lparr>dirty := b\<rparr>) = merged s"
  "merged (s\<lparr>pending := e\<rparr>) = merged s"
  by (simp_all add: merged_def)









lemma flush_calls_cong [simp]:
  "flush_calls E (s\<lparr>dirty := b\<rparr>) = flush_calls E s"
  by (simp add: flush_calls_eq)



subsection \<open>Tearing down\<close>

lemma drain_tracked_destroy:
  "drain_tracked sc \<Longrightarrow> list_all (\<lambda>e. snd e \<noteq> DrainTask) (pending (destroy sc))"
  by (cases "cancel sc")
     (auto simp: drain_tracked_def destroy_def cancel_handle_def Let_def list_all_iff)

text \<open>
  C5, amended. \<open>destroy()\<close> of a scheduler calls the cancel handle, which removes the
  booked drain, empties the queue and detaches the hook; the invocations of the hook
  that are awaited stay as they are. \<open>dispose()\<close> of a store empties the queued patches,
  puts a new, empty object in place of the state and empties both subscriber lists; the
  store keeps no cancel handle, and the bookings of the host are left as they are.
\<close>

theorem destroy_and_dispose:
  "pending (destroy sc) =
     (case cancel sc of None \<Rightarrow> pending sc
      | Some c \<Rightarrow> filter (\<lambda>e. fst e \<noteq> c) (pending sc))
   \<and> (drain_tracked sc \<longrightarrow> list_all (\<lambda>e. snd e \<noteq> DrainTask) (pending (destroy sc)))
   \<and> contents (q (destroy sc)) = [] \<and> size_q (q (destroy sc)) = 0
   \<and> onTake (destroy sc) = None
   \<and> awaiting (destroy sc) = awaiting sc \<and> hook_calls (destroy sc) = hook_calls sc
   \<and> stateChanges (dispose st) = [] \<and> snd (state (dispose st)) = Map.empty
   \<and> (wf st \<longrightarrow> fst (state (dispose st)) \<noteq> fst (state st))
   \<and> subscribers (dispose st) = [] \<and> removedSubscribers (dispose st) = []
   \<and> pending (dispose st) = pending st \<and> calls (dispose st) = calls st"
proof -
  have "fst (state (dispose st)) \<noteq> fst (state st)" if "wf st"
    using that by (simp add: dispose_def wf_def)
  then show ?thesis
    using drain_tracked_destroy [of sc]
    by (cases "cancel sc")
       (simp_all add: destroy_def dispose_def cancel_handle_def destroy_q_def contents_def
          size_q_def Let_def)
qed

subsection \<open>Examples\<close>

lemma wf_store0: "wf (store0 immediate)"
  unfolding store0_def by (rule wf_createState) (simp add: host0_def)

theorem flush_merges_in_order_witness:
  "\<not> immediateFlush (store0 False)
   \<and> stateChanges (store0 False) = []
   \<and> snd (state (tick env0 (queue_all env0
        [([''count'' \<mapsto> PNum 1], None), ([''foo'' \<mapsto> PNum 7], Some (UserCb 3)),
         ([''count'' \<mapsto> PNum 2], None)] (store0 False)))) ''count'' = Some (PNum 2)
   \<and> snd (state (tick env0 (queue_all env0
        [([''count'' \<mapsto> PNum 1], None), ([''foo'' \<mapsto> PNum 7], Some (UserCb 3)),
         ([''count'' \<mapsto> PNum 2], None)] (store0 False)))) ''foo'' = Some (PNum 7)"
proof -
  let ?ps = "[([''count'' \<mapsto> PNum 1], None), ([''foo'' \<mapsto> PNum 7], Some (UserCb 3)),
         ([''count'' \<mapsto> PNum 2], None)]"
  have d: "\<not> immediateFlush (store0 False)" "stateChanges (store0 False) = []"
    "snd (state (store0 False)) = [''count'' \<mapsto> PNum 0]"
    by (simp_all add: store0_deferred)
  from flush_merges_in_order [where E = env0 and s = "store0 False" and ps = ?ps] d(1)
  have "snd (state (tick env0 (queue_all env0 ?ps (store0 False)))) =
          foldl (++) (snd (state (store0 False))) (stateChanges (store0 False) @ map fst ?ps)"
    by blast
  then have "snd (state (tick env0 (queue_all env0 ?ps (store0 False)))) =
          [''count'' \<mapsto> PNum 0] ++ [''count'' \<mapsto> PNum 1] ++ [''foo'' \<mapsto> PNum 7]
            ++ [''count'' \<mapsto> PNum 2]"
    by (simp only: d) simp
  with d(1,2) show ?thesis by (simp only:) simp
qed

theorem flush_fresh_identity_witness:
  "wf (store0 False) \<and> stateChanges (store0 False) = []
   \<and> map_of (pending (store0 False)) (Frame, 0) = Some FlushTask
   \<and> fst (state (tick env0 (store0 False))) \<noteq> fst (state (store0 False))
   \<and> snd (state (tick env0 (store0 False))) = snd (state (store0 False))
   \<and> fst (state (fire env0 (Frame, 0) (store0 False))) \<noteq> fst (state (store0 False))"
proof -
  have s: "stateChanges (store0 False) = []"
    "map_of (pending (store0 False)) (Frame, 0) = Some FlushTask"
    by (simp_all add: store0_deferred)
  from flush_fresh_identity [OF wf_store0, where immediate1 = False and E = env0 and c = "(Frame, 0)"]
    s wf_store0 [of False]
  show ?thesis by blast
qed

theorem resubscribe_after_unsubscribe_witness:
  "wf (store0 False)
   \<and> UserCb 1 \<in> subscriber ` set (subscribers
        (subscribe (UserCb 1) None (unsubscribe (UserCb 1) (subscribe (UserCb 1) None (store0 False)))))
   \<and> UserCb 1 \<notin> fst ` set (flush_calls env0
        (subscribe (UserCb 1) None (unsubscribe (UserCb 1) (subscribe (UserCb 1) None (store0 False)))))"
proof -
  let ?t = "subscribe (UserCb 1) None (unsubscribe (UserCb 1) (subscribe (UserCb 1) None (store0 False)))"
  have r: "UserCb 1 \<in> subscriber ` set (subscribers ?t)" by (rule subscribe_registers)
  from resubscribe_after_unsubscribe [OF wf_store0, where cb = "UserCb 1" and ks = None
      and ks' = None and E = env0 and immediate1 = False]
  have "UserCb 1 \<notin> fst ` set (flush_calls env0 ?t)" by blast
  with r wf_store0 [of False] show ?thesis by blast
qed




theorem destroy_and_dispose_witness:
  "drain_tracked scenarioC \<and> cancel scenarioC = Some (Frame, 0)
   \<and> pending scenarioC = [((Frame, 0), DrainTask)]
   \<and> pending (destroy scenarioC) = []
   \<and> list_all (\<lambda>e. snd e \<noteq> DrainTask) (pending (destroy scenarioC))
   \<and> wf (store0 False)
   \<and> fst (state (dispose (store0 False))) \<noteq> fst (state (store0 False))"
proof -
  have d: "drain_tracked scenarioC" "cancel scenarioC = Some (Frame, 0)"
    "pending scenarioC = [((Frame, 0), DrainTask)]"
    by (simp_all add: scenarioC_eq drain_tracked_def)
  note T = destroy_and_dispose [where sc = scenarioC and st = "store0 False"]
  from T wf_store0 [of False]
  have f: "fst (state (dispose (store0 False))) \<noteq> fst (state (store0 False))" by blast
  from T d have "pending (destroy scenarioC) = []"
    "list_all (\<lambda>e. snd e \<noteq> DrainTask) (pending (destroy scenarioC))" by simp_all
  with d f wf_store0 [of False] show ?thesis by blast
qed

text \<open>
  C5 as stated fails for the store: after \<open>dispose()\<close> the flush booked at creation is
  still booked, and when it fires it replaces the state object.
\<close>

theorem dispose_keeps_flush_booked:
  "pending (store0 False) = [((Frame, 0), FlushTask)]
   \<and> pending (dispose (store0 False)) = [((Frame, 0), FlushTask)]
   \<and> fst (state (dispose (store0 False))) = 1
   \<and> fst (state (fire env0 (Frame, 0) (dispose (store0 False)))) = 2"
  by (simp add: store0_deferred dispose_def fire_def cancel_handle_def)

section \<open>Properties of a flush inside a flush\<close>

subsection \<open>Callbacks that only unsubscribe\<close>

lemma run_body_unsubscribes:
  "run_body T (map CallUnsubscribe cs) s = Some (foldl (\<lambda>s' c. unsubscribe c s') s cs)"
  by (induction cs arbitrary: s) simp_all

lemma invoke_re_code_of: "invoke_re T (code_of E) cb st s = Some (invoke E cb st s)"
  by (cases cb) (simp_all add: invoke_re_def invoke_def code_of_def run_body_unsubscribes Let_def)

lemma notify_one_re_code_of:
  "notify_one_re T (code_of E) st prev s ret = Some (notify_one E st prev s ret)"
  by (simp add: notify_one_re_def notify_one_def invoke_re_code_of split: option.splits)
     (simp add: code_of_def)

lemma forEach_copy_total:
  assumes "\<And>s' ret. f s' ret = Some (g s' ret)"
  shows "forEach_copy f l s = Some (foldl g s l)"
  by (induction l arbitrary: s) (simp_all add: assms)

lemma forEach_live_stable:
  assumes f: "\<And>s' ret. f s' ret = Some (g s' ret)"
    and g: "\<And>s' ret. subscribers (g s' ret) = subscribers s'"
  shows "k \<le> length (subscribers s) \<Longrightarrow>
     forEach_live f [k..<length (subscribers s)] s = Some (foldl g s (drop k (subscribers s)))"
proof (induction "length (subscribers s) - k" arbitrary: k s)
  case 0
  then show ?case by simp
next
  case (Suc m)
  then have lt: "k < length (subscribers s)" by simp
  let ?s' = "g s (subscribers s ! k)"
  have sub: "subscribers ?s' = subscribers s" by (rule g)
  have "forEach_live f [Suc k..<length (subscribers ?s')] ?s'
          = Some (foldl g ?s' (drop (Suc k) (subscribers ?s')))"
    using Suc.hyps(2) lt by (intro Suc.hyps(1)) (simp_all add: sub)
  then show ?case
    using lt by (simp add: upt_conv_Cons f sub Cons_nth_drop_Suc [symmetric])
qed

lemma notify_one_subscribers [simp]:
  "subscribers (notify_one E st prev s ret) = subscribers s"
  by (simp add: notify_one_eq)

lemma notify_re_code_of: "notify_re T (code_of E) st prev s = Some (notify E st prev s)"
proof (cases "removedSubscribers s = []")
  case True
  then have l: "live s = subscribers s" "prune s = s" by (simp_all add: live_def prune_def)
  from forEach_live_stable [of "notify_one_re T (code_of E) st prev" "notify_one E st prev" 0 s]
  have "forEach_live (notify_one_re T (code_of E) st prev) [0..<length (subscribers s)] s
          = Some (foldl (notify_one E st prev) s (subscribers s))"
    by (simp add: notify_one_re_code_of)
  with True l show ?thesis by (simp add: notify_re_def notify_def)
next
  case False
  then have "prune s = s\<lparr>subscribers := live s, removedSubscribers := []\<rparr>"
    by (simp add: prune_def)
  with False show ?thesis
    by (simp add: notify_re_def notify_def
          forEach_copy_total [of _ "notify_one E st prev", OF notify_one_re_code_of])
qed

lemma tick_re_code_of: "tick_re (Suc d) (code_of E) s = Some (tick E s)"
  by (simp add: tick_body_def tick_def flush_re_def flush_def notify_re_code_of Let_def
        split: prod.splits)

lemma markDirty_re_code_of:
  "markDirty_re (tick_re (Suc d) (code_of E)) s = Some (markDirty E s)"
  by (simp add: markDirty_re_def markDirty_def tick_re_code_of Let_def del: tick_re.simps)

lemma setState_re_code_of:
  "setState_re (tick_re (Suc d) (code_of E)) patch sub s = Some (setState E patch sub s)"
  by (simp add: setState_re_def setState_def markDirty_re_code_of Let_def
        split: option.splits prod.splits del: tick_re.simps)

lemma fire_re_code_of: "fire_re (tick_re (Suc d) (code_of E)) c s = Some (fire E c s)"
  by (simp add: fire_re_def fire_def tick_re_code_of split: option.splits task.splits
        del: tick_re.simps)

subsection \<open>More room for nesting changes no result\<close>

lemma markDirty_re_mono:
  "extends T T' \<Longrightarrow> markDirty_re T s = Some x \<Longrightarrow> markDirty_re T' s = Some x"
  by (auto simp: markDirty_re_def extends_def Let_def split: if_splits)

lemma setState_re_mono:
  assumes "extends T T'" and "setState_re T patch sub s = Some x"
  shows "setState_re T' patch sub s = Some x"
proof -
  from assms(2) obtain s1 where
    m: "markDirty_re T (s\<lparr>stateChanges := stateChanges s @ [patch]\<rparr>) = Some s1"
    by (auto simp: setState_re_def split: option.splits)
  from markDirty_re_mono [OF assms(1) m] m assms(2) show ?thesis
    by (simp add: setState_re_def)
qed

lemma act_mono: "extends T T' \<Longrightarrow> act T a s = Some x \<Longrightarrow> act T' a s = Some x"
  by (cases a) (auto dest: setState_re_mono)

lemma run_body_mono:
  "extends T T' \<Longrightarrow> run_body T as s = Some x \<Longrightarrow> run_body T' as s = Some x"
proof (induction as arbitrary: s)
  case Nil
  then show ?case by simp
next
  case (Cons a as)
  from Cons.prems(2) obtain s' where a: "act T a s = Some s'" and r: "run_body T as s' = Some x"
    by (auto split: option.splits)
  from act_mono [OF Cons.prems(1) a] Cons.IH [OF Cons.prems(1) r] show ?case by simp
qed

lemma invoke_re_mono:
  "extends T T' \<Longrightarrow> invoke_re T C cb st s = Some x \<Longrightarrow> invoke_re T' C cb st s = Some x"
  by (cases cb) (auto simp: invoke_re_def Let_def dest: run_body_mono)

lemma notify_one_re_mono:
  "extends T T' \<Longrightarrow> notify_one_re T C st prev s ret = Some x \<Longrightarrow>
     notify_one_re T' C st prev s ret = Some x"
  by (auto simp: notify_one_re_def split: option.splits if_splits dest: invoke_re_mono)

lemma forEach_copy_mono:
  assumes "\<And>s' ret y. f s' ret = Some y \<Longrightarrow> f' s' ret = Some y"
  shows "forEach_copy f l s = Some x \<Longrightarrow> forEach_copy f' l s = Some x"
proof (induction l arbitrary: s)
  case Nil
  then show ?case by simp
next
  case (Cons ret l)
  from Cons.prems obtain s' where a: "f s ret = Some s'" and r: "forEach_copy f l s' = Some x"
    by (auto split: option.splits)
  from assms [OF a] Cons.IH [OF r] show ?case by simp
qed

lemma forEach_live_mono:
  assumes "\<And>s' ret y. f s' ret = Some y \<Longrightarrow> f' s' ret = Some y"
  shows "forEach_live f ks s = Some x \<Longrightarrow> forEach_live f' ks s = Some x"
proof (induction ks arbitrary: s)
  case Nil
  then show ?case by simp
next
  case (Cons k ks)
  show ?case
  proof (cases "k < length (subscribers s)")
    case True
    with Cons.prems obtain s' where a: "f s (subscribers s ! k) = Some s'"
      and r: "forEach_live f ks s' = Some x"
      by (auto split: option.splits)
    from assms [OF a] Cons.IH [OF r] True show ?thesis by simp
  next
    case False
    with Cons.prems Cons.IH show ?thesis by simp
  qed
qed

lemma notify_re_mono:
  assumes "extends T T'" and "notify_re T C st prev s = Some x"
  shows "notify_re T' C st prev s = Some x"
  using assms(2)
    forEach_live_mono [of "notify_one_re T C st prev" "notify_one_re T' C st prev"]
    forEach_copy_mono [of "notify_one_re T C st prev" "notify_one_re T' C st prev"]
    notify_one_re_mono [OF assms(1)]
  by (auto simp: notify_re_def split: if_splits)

lemma tick_body_mono:
  "extends T T' \<Longrightarrow> tick_body T C s = Some x \<Longrightarrow> tick_body T' C s = Some x"
  by (auto simp: tick_body_def flush_re_def Let_def split: if_splits dest: notify_re_mono)

lemma tick_re_Suc: "extends (tick_re d C) (tick_re (Suc d) C)"
proof (induction d)
  case 0
  then show ?case by (simp add: extends_def)
next
  case (Suc d)
  have "tick_re (Suc (Suc d)) C s = Some x" if "tick_re (Suc d) C s = Some x" for s x
  proof -
    from that have "tick_body (tick_re d C) C s = Some x" by simp
    from tick_body_mono [OF Suc this] have "tick_body (tick_re (Suc d) C) C s = Some x" .
    moreover have "tick_re (Suc (Suc d)) C s = tick_body (tick_re (Suc d) C) C s"
      by (rule tick_re.simps)
    ultimately show ?thesis by (simp only:)
  qed
  then show ?case unfolding extends_def by blast
qed

lemma tick_re_more_room: "tick_re d C s = Some x \<Longrightarrow> tick_re (d + k) C s = Some x"
proof (induction k)
  case 0
  then show ?case by simp
next
  case (Suc k)
  with tick_re_Suc [of "d + k" C] show ?case by (simp add: extends_def del: tick_re.simps)
qed

subsection \<open>A flush inside a flush\<close>

lemma storeR_eq:
  "storeR =
     \<lparr>has_idle = True, has_raf = True, pending = [], next_id = 0,
      state = (1, [''x'' \<mapsto> PNum 0]), stateChanges = [], dirty = False,
      immediateFlush = True,
      subscribers = [\<lparr>rid = 0, subscriber = UserCb 1, keys = None\<rparr>,
                     \<lparr>rid = 1, subscriber = UserCb 2, keys = Some [''x'']\<rparr>,
                     \<lparr>rid = 2, subscriber = UserCb 3, keys = None\<rparr>],
      removedSubscribers = [], next_rid = 3, next_obj = 2, promises = [], calls = []\<rparr>"
  by (simp add: storeR_def store_defs tick_eq notify_def live_def prune_def merged_def)

lemmas re_defs = setState_re_def markDirty_re_def tick_body_def flush_re_def notify_re_def
  notify_one_re_def invoke_re_def isStateChangedWithKeys_def assign_def live_def
  unsubscribe_def subscribe_def subscribeWrapper_def book_def prim_neq_def prim_value_def
  Let_def

lemma reentrant_calls:
  "map_option (\<lambda>rs. calls (snd rs))
     (setState_re (tick_re (Suc (Suc d)) codeR) [''x'' \<mapsto> PNum 1] None storeR)
   = Some [(UserCb 1, 2), (UserCb 3, 3), (UserCb 3, 2), (UserCb 4, 2)]"
  by (simp add: storeR_eq codeR_def re_defs upt_rec)

lemma storeD_eq:
  "storeD =
     \<lparr>has_idle = True, has_raf = True, pending = [((Frame, 0), FlushTask)], next_id = 1,
      state = (0, [''x'' \<mapsto> PNum 0]), stateChanges = [], dirty = True,
      immediateFlush = False,
      subscribers = [\<lparr>rid = 0, subscriber = UserCb 1, keys = None\<rparr>,
                     \<lparr>rid = 1, subscriber = UserCb 2, keys = Some [''x'']\<rparr>,
                     \<lparr>rid = 2, subscriber = UserCb 3, keys = None\<rparr>],
      removedSubscribers = [], next_rid = 3, next_obj = 1, promises = [], calls = []\<rparr>"
  by (simp add: storeD_def store_defs)

lemma reentrant_state:
  "map_option (\<lambda>rs. (fst (state (snd rs)), snd (state (snd rs)) ''x'', map subscriber (subscribers (snd rs))))
     (setState_re (tick_re (Suc (Suc d)) codeR) [''x'' \<mapsto> PNum 1] None storeR)
   = Some (3, Some (PNum 1), [UserCb 2, UserCb 3, UserCb 4, WrapperCb 0])"
  by (simp add: storeR_eq codeR_def re_defs upt_rec)

lemma deferred_calls:
  "Option.bind (setState_re (tick_re (Suc d) codeR) [''x'' \<mapsto> PNum 1] None storeD)
     (\<lambda>rs. map_option calls (fire_re (tick_re (Suc d) codeR) (Frame, 0) (snd rs)))
   = Some [(UserCb 1, 1), (UserCb 2, 1), (UserCb 3, 1), (WrapperCb 0, 1)]"
  by (simp add: storeD_eq codeR_def re_defs fire_re_def cancel_handle_def nextTime_def
        resolve_def clearTimeout_def upt_rec)

text \<open>
  C3 fails at a flush with a flush inside. \<open>storeR\<close> flushes immediately and holds
  the subscription of callback 2 to the key \<open>x\<close>, with \<open>x\<close> equal to 0. \<open>setState({x: 1})\<close>
  returns, whatever room for nesting beyond two flushes there is, and leaves \<open>x\<close> equal
  to 1, which \<open>!=\<close> tells from 0; the callbacks invoked during the call are 1, 3, 3
  and 4. Callback 2 is not among them: callback 1 unsubscribed itself and called
  \<open>setState\<close>, the pass of the nested flush cut the array that the outer \<open>forEach\<close> was
  walking, and the outer pass went on at the index after the subscription.
\<close>

theorem reentrant_flush_skips_keyed_subscriber:
  "immediateFlush storeR
   \<and> \<lparr>rid = 1, subscriber = UserCb 2, keys = Some [''x'']\<rparr> \<in> set (live storeR)
   \<and> snd (state storeR) ''x'' = Some (PNum 0)
   \<and> map_option (\<lambda>rs. snd (state (snd rs)) ''x'')
        (setState_re (tick_re (Suc (Suc d)) codeR) [''x'' \<mapsto> PNum 1] None storeR)
       = Some (Some (PNum 1))
   \<and> neq codeR (Some (PNum 0)) (Some (PNum 1))
   \<and> map_option (\<lambda>rs. map fst (calls (snd rs)))
        (setState_re (tick_re (Suc (Suc d)) codeR) [''x'' \<mapsto> PNum 1] None storeR)
       = Some [UserCb 1, UserCb 3, UserCb 3, UserCb 4]"
proof -
  have a: "immediateFlush storeR"
    "\<lparr>rid = 1, subscriber = UserCb 2, keys = Some [''x'']\<rparr> \<in> set (live storeR)"
    "snd (state storeR) ''x'' = Some (PNum 0)"
    by (simp_all add: storeR_eq live_def)
  have b: "neq codeR (Some (PNum 0)) (Some (PNum 1))"
    by (simp add: codeR_def prim_neq_def prim_value_def)
  obtain r s' where rs: "setState_re (tick_re (Suc (Suc d)) codeR) [''x'' \<mapsto> PNum 1] None storeR
      = Some (r, s')" and c: "calls s' = [(UserCb 1, 2), (UserCb 3, 3), (UserCb 3, 2), (UserCb 4, 2)]"
    using reentrant_calls [of d] by (auto simp: map_option_case split: option.splits)
  from reentrant_state [of d] rs have "snd (state s') ''x'' = Some (PNum 1)" by simp
  with a b rs c show ?thesis by simp
qed

text \<open>
  C4 fails at the same input. The pass of \<open>setState({x: 1})\<close> on \<open>storeR\<close> starts with
  the subscribers 1, 2, 3 and hands out state object 2: it invokes callback 1, which
  calls its unsubscribe closure and \<open>setState\<close>; then callback 3 and callback 4, which
  was subscribed during the pass. Subscriber 2 is skipped (the call of callback 3 with
  state object 3 belongs to the nested pass). On \<open>storeD\<close>, where the \<open>setState\<close> of the
  callback only books a flush, the same callbacks give 1, 2, 3 and the wrapper of the
  promise.
\<close>

theorem unsubscribe_in_callback_skips_subscriber:
  "body codeR 1 = [CallUnsubscribe (UserCb 1), CallSetState [''y'' \<mapsto> PNum 1] (Some (UserCb 4))]
   \<and> map subscriber (live storeR) = [UserCb 1, UserCb 2, UserCb 3]
   \<and> map subscriber (live storeD) = [UserCb 1, UserCb 2, UserCb 3]
   \<and> map_option (\<lambda>rs. calls (snd rs))
        (setState_re (tick_re (Suc (Suc d)) codeR) [''x'' \<mapsto> PNum 1] None storeR)
       = Some [(UserCb 1, 2), (UserCb 3, 3), (UserCb 3, 2), (UserCb 4, 2)]
   \<and> Option.bind (setState_re (tick_re (Suc d) codeR) [''x'' \<mapsto> PNum 1] None storeD)
        (\<lambda>rs. map_option calls (fire_re (tick_re (Suc d) codeR) (Frame, 0) (snd rs)))
       = Some [(UserCb 1, 1), (UserCb 2, 1), (UserCb 3, 1), (WrapperCb 0, 1)]"
proof -
  have "body codeR 1 = [CallUnsubscribe (UserCb 1), CallSetState [''y'' \<mapsto> PNum 1] (Some (UserCb 4))]"
    by (simp add: codeR_def)
  moreover have "map subscriber (live storeR) = [UserCb 1, UserCb 2, UserCb 3]"
    "map subscriber (live storeD) = [UserCb 1, UserCb 2, UserCb 3]"
    by (simp_all add: storeR_eq storeD_eq live_def)
  ultimately show ?thesis using reentrant_calls [of d] deferred_calls [of d] by (simp only:)
qed

end
